theory Spec2Isabelle
  imports Main
begin

section \<open>Category tree flattening (fill\_categories.py)\<close>

text \<open>
  A shallow embedding of \<^verbatim>\<open>generate_slug\<close>, \<^verbatim>\<open>parse_categories\<close> and
  \<^verbatim>\<open>insert_categories\<close> of \<^verbatim>\<open>src/fill_categories.py\<close>.

  A Python \<^verbatim>\<open>str\<close> is a sequence of code points. Here a \<^typ>\<open>char\<close> stands for the code
  point of the same number, so the model covers the names whose code points are below 256
  (ASCII and Latin-1); on that range \<^verbatim>\<open>str.lower\<close>, \<^verbatim>\<open>\w\<close> and \<^verbatim>\<open>\s\<close> of Python 3
  are the tables below.
\<close>

subsection \<open>Characters and the two regular expressions\<close>

definition code_point :: "char \<Rightarrow> nat" where
  "code_point c = of_char c"

text \<open>
  \<^verbatim>\<open>str.lower\<close>: A-Z and the Latin-1 capitals (all of 192..222 but the sign 215) move up
  by 32.
\<close>

definition lower_char :: "char \<Rightarrow> char" where
  "lower_char c =
     (let n = code_point c in
      if (65 \<le> n \<and> n \<le> 90) \<or> (192 \<le> n \<and> n \<le> 222 \<and> n \<noteq> 215)
      then char_of (n + 32) else c)"

definition lower :: "string \<Rightarrow> string" where
  "lower s = map lower_char s"

text \<open>\<^verbatim>\<open>\w\<close> on a \<^verbatim>\<open>str\<close> pattern: the alphanumeric code points and the underscore.\<close>

definition is_word :: "char \<Rightarrow> bool" where
  "is_word c =
     (let n = code_point c in
      (48 \<le> n \<and> n \<le> 57) \<or> (65 \<le> n \<and> n \<le> 90) \<or> n = 95 \<or> (97 \<le> n \<and> n \<le> 122)
      \<or> n = 170 \<or> n = 178 \<or> n = 179 \<or> n = 181 \<or> n = 185 \<or> n = 186
      \<or> (188 \<le> n \<and> n \<le> 190)
      \<or> (192 \<le> n \<and> n \<le> 214) \<or> (216 \<le> n \<and> n \<le> 246) \<or> 248 \<le> n)"

text \<open>\<^verbatim>\<open>\s\<close> on a \<^verbatim>\<open>str\<close> pattern: the code points for which \<^verbatim>\<open>str.isspace\<close> holds.\<close>

definition is_space :: "char \<Rightarrow> bool" where
  "is_space c =
     (let n = code_point c in
      (9 \<le> n \<and> n \<le> 13) \<or> (28 \<le> n \<and> n \<le> 32) \<or> n = 133 \<or> n = 160)"

definition hyphen :: char where
  "hyphen = CHR ''-''"

text \<open>The class \<^verbatim>\<open>[^\w\s-]\<close> of the first substitution and \<^verbatim>\<open>[-\s]\<close> of the second.\<close>

definition not_word_space_hyphen :: "char \<Rightarrow> bool" where
  "not_word_space_hyphen c = (\<not> (is_word c \<or> is_space c \<or> c = hyphen))"

definition hyphen_or_space :: "char \<Rightarrow> bool" where
  "hyphen_or_space c = (c = hyphen \<or> is_space c)"

text \<open>
  \<^verbatim>\<open>re.sub\<close> for a pattern that is one character class: every matching character is
  replaced, the others are copied.
\<close>

fun re_sub_class :: "(char \<Rightarrow> bool) \<Rightarrow> string \<Rightarrow> string \<Rightarrow> string" where
  "re_sub_class cls repl [] = []"
| "re_sub_class cls repl (c # cs) =
     (if cls c then repl @ re_sub_class cls repl cs else c # re_sub_class cls repl cs)"

text \<open>
  \<^verbatim>\<open>re.sub\<close> for a pattern \<^verbatim>\<open>[...]+\<close>: scanning from the left, a match starts at the first
  character of the class and, being greedy, takes the whole run; the scan goes on after it.
\<close>

function re_sub_class_plus :: "(char \<Rightarrow> bool) \<Rightarrow> string \<Rightarrow> string \<Rightarrow> string" where
  "re_sub_class_plus cls repl [] = []"
| "re_sub_class_plus cls repl (c # cs) =
     (if cls c then repl @ re_sub_class_plus cls repl (dropWhile cls cs)
      else c # re_sub_class_plus cls repl cs)"
  by pat_completeness auto
termination
  by (relation "measure (\<lambda>(cls, repl, s). length s)")
     (auto simp: length_dropWhile_le less_Suc_eq_le)

text \<open>\<^verbatim>\<open>str.strip(chars)\<close> for a one-character argument.\<close>

definition strip :: "char \<Rightarrow> string \<Rightarrow> string" where
  "strip ch s = rev (dropWhile (\<lambda>c. c = ch) (rev (dropWhile (\<lambda>c. c = ch) s)))"

definition generate_slug :: "string \<Rightarrow> string" where
  "generate_slug name =
     (let slug = lower name;
          slug = re_sub_class not_word_space_hyphen [] slug;
          slug = re_sub_class_plus hyphen_or_space [hyphen] slug;
          slug = strip hyphen slug
      in slug)"

subsection \<open>Nodes, records and the traversal\<close>

text \<open>
  A node is the JSON object as \<^verbatim>\<open>parse_categories\<close> reads it: the keys \<^verbatim>\<open>id\<close>,
  \<^verbatim>\<open>name\<close> and \<^verbatim>\<open>childNodes\<close>, each of which may be missing (\<open>None\<close>).
\<close>

datatype CategoryNode =
  CategoryNode (node_id: "string option") (node_name: "string option")
    (childNodes: "CategoryNode list option")

text \<open>The tuple \<^verbatim>\<open>(id, parent_id, name, slug, is_active, updated_at)\<close>.\<close>

record CategoryRecord =
  rec_id :: string
  rec_parent_id :: "string option"
  rec_name :: string
  rec_slug :: string
  rec_is_active :: bool
  rec_updated_at :: int

text \<open>
  \<^verbatim>\<open>uuid.uuid4()\<close> and \<^verbatim>\<open>datetime.now\<close> are the two effects of the traversal. Each
  is called once for every emitted record, so a run is described by what the k-th call of
  each returns, and the state counts the calls made so far.
\<close>

record run =
  uuid4 :: "nat \<Rightarrow> string"
  now :: "nat \<Rightarrow> int"

type_synonym tracker = "string \<times> string \<rightharpoonup> nat"

record pstate =
  slug_tracker :: tracker
  calls :: nat

text \<open>Decimal rendering of the counter, as the f-string does.\<close>

definition digit_char :: "nat \<Rightarrow> char" where
  "digit_char d = char_of (48 + d)"

function str_nat :: "nat \<Rightarrow> string" where
  "str_nat n = (if n < 10 then [digit_char n] else str_nat (n div 10) @ [digit_char (n mod 10)])"
  by pat_completeness auto
termination
  by (relation "measure id") auto

text \<open>\<^verbatim>\<open>(parent_id if parent_id else 'root', base_slug)\<close>: \<open>None\<close> and the empty string are falsy.\<close>

definition parent_key :: "string option \<Rightarrow> string \<Rightarrow> string \<times> string" where
  "parent_key parent_id base_slug =
     ((case parent_id of None \<Rightarrow> ''root'' | Some p \<Rightarrow> if p = [] then ''root'' else p), base_slug)"

text \<open>Lines 70 to 75: the slug of this occurrence and the updated tracker.\<close>

definition track_slug :: "tracker \<Rightarrow> string \<times> string \<Rightarrow> string \<times> tracker" where
  "track_slug tr key =
     (case tr key of
        Some k \<Rightarrow> (snd key @ [hyphen] @ str_nat (k + 1), tr(key \<mapsto> k + 1))
      | None \<Rightarrow> (snd key, tr(key \<mapsto> 1)))"

definition get_name :: "string option \<Rightarrow> string" where
  "get_name n = (case n of None \<Rightarrow> [] | Some s \<Rightarrow> s)"

fun parse_categories ::
    "run \<Rightarrow> CategoryNode \<Rightarrow> string option \<Rightarrow> pstate \<Rightarrow> CategoryRecord list \<times> pstate"
  and extend_children ::
    "run \<Rightarrow> CategoryNode list \<Rightarrow> string option \<Rightarrow> pstate \<Rightarrow> CategoryRecord list \<times> pstate"
where
  "parse_categories e (CategoryNode i n ch) parent_id st =
     (if i = Some ''root'' then
        (case ch of None \<Rightarrow> ([], st) | Some cs \<Rightarrow> extend_children e cs None st)
      else
        (let category_id = uuid4 e (calls st);
             name = get_name n;
             base_slug = generate_slug name;
             (slug, tr) = track_slug (slug_tracker st) (parent_key parent_id base_slug);
             r = \<lparr>rec_id = category_id, rec_parent_id = parent_id, rec_name = name,
                  rec_slug = slug, rec_is_active = True, rec_updated_at = now e (calls st)\<rparr>;
             st1 = \<lparr>slug_tracker = tr, calls = Suc (calls st)\<rparr>;
             (rs, st2) = (case ch of None \<Rightarrow> ([], st1)
                          | Some cs \<Rightarrow> extend_children e cs (Some category_id) st1)
         in (r # rs, st2)))"
| "extend_children e [] parent_id st = ([], st)"
| "extend_children e (c # cs) parent_id st =
     (let (a, st1) = parse_categories e c parent_id st;
          (b, st2) = extend_children e cs parent_id st1
      in (a @ b, st2))"

text \<open>The call of \<^verbatim>\<open>main\<close>: no parent, and a new empty tracker.\<close>

definition initial :: pstate where
  "initial = \<lparr>slug_tracker = Map.empty, calls = 0\<rparr>"

definition parse_tree :: "run \<Rightarrow> CategoryNode \<Rightarrow> CategoryRecord list" where
  "parse_tree e data = fst (parse_categories e data None initial)"

subsection \<open>Reading the traversal\<close>

text \<open>The children a node is iterated over: none when the key is missing.\<close>

definition kids :: "CategoryNode list option \<Rightarrow> CategoryNode list" where
  "kids ch = (case ch of None \<Rightarrow> [] | Some cs \<Rightarrow> cs)"

text \<open>Lines 63 to 81 for one node: the record it emits and the state after it.\<close>

definition emit ::
    "run \<Rightarrow> string option \<Rightarrow> string option \<Rightarrow> pstate \<Rightarrow> CategoryRecord \<times> pstate" where
  "emit e n parent_id st =
     (let name = get_name n;
          (slug, tr) = track_slug (slug_tracker st) (parent_key parent_id (generate_slug name))
      in (\<lparr>rec_id = uuid4 e (calls st), rec_parent_id = parent_id, rec_name = name,
            rec_slug = slug, rec_is_active = True, rec_updated_at = now e (calls st)\<rparr>,
          \<lparr>slug_tracker = tr, calls = Suc (calls st)\<rparr>))"

subsection \<open>The tree as the specification speaks of it\<close>

text \<open>The number of nodes of a tree that are not the sentinel.\<close>

fun count_non_root :: "CategoryNode \<Rightarrow> nat" where
  "count_non_root (CategoryNode i n ch) =
     (if i = Some ''root'' then 0 else 1)
     + (case ch of None \<Rightarrow> 0 | Some cs \<Rightarrow> sum_list (map count_non_root cs))"

subsection \<open>The slug as the specification describes it\<close>

text \<open>
  The characters that are kept: word characters, whitespace and hyphens. The separators:
  whitespace and hyphens.
\<close>

definition keep_char :: "char \<Rightarrow> bool" where
  "keep_char c = (is_word c \<or> is_space c \<or> c = hyphen)"

definition separator :: "char \<Rightarrow> bool" where
  "separator c = (is_space c \<or> c = hyphen)"

text \<open>Every maximal run of separators becomes a single hyphen.\<close>

fun collapse_runs :: "string \<Rightarrow> string" where
  "collapse_runs [] = []"
| "collapse_runs [c] = [if separator c then hyphen else c]"
| "collapse_runs (c # d # cs) =
     (if separator c \<and> separator d then collapse_runs (d # cs)
      else (if separator c then hyphen else c) # collapse_runs (d # cs))"

text \<open>The hyphens at the front are dropped, then those at the back.\<close>

definition trim_hyphens :: "string \<Rightarrow> string" where
  "trim_hyphens s =
     (let t = drop (length (takeWhile (\<lambda>c. c = hyphen) s)) s
      in take (length t - length (takeWhile (\<lambda>c. c = hyphen) (rev t))) t)"

definition spec_slug :: "string \<Rightarrow> string" where
  "spec_slug name = trim_hyphens (collapse_runs (filter keep_char (map lower_char name)))"

subsection \<open>Occurrences of a key in the output\<close>

text \<open>
  The key under which the tracker counts a record: its parent identifier, or \<^verbatim>\<open>root\<close>
  when it has none, with the base slug of its name.
\<close>

definition record_key :: "CategoryRecord \<Rightarrow> string \<times> string" where
  "record_key r = parent_key (rec_parent_id r) (generate_slug (rec_name r))"

text \<open>
  The pair the specification counts by: the parent identifier of a record, or none, and the
  base slug of its name. How many records up to and including position k have the pair of
  the k-th record.
\<close>

definition slug_pair :: "CategoryRecord \<Rightarrow> string option \<times> string" where
  "slug_pair r = (rec_parent_id r, generate_slug (rec_name r))"

definition occurrence :: "CategoryRecord list \<Rightarrow> nat \<Rightarrow> nat" where
  "occurrence out k =
     length (filter (\<lambda>r. slug_pair r = slug_pair (out ! k)) (take (Suc k) out))"

text \<open>
  An identifier from \<^verbatim>\<open>str(uuid.uuid4())\<close> has 36 characters: it is not empty (which the
  key would take for no parent) and it is not the word \<^verbatim>\<open>root\<close> (the key of the top level).
\<close>

definition proper_ids :: "run \<Rightarrow> bool" where
  "proper_ids e = (\<forall>k. uuid4 e k \<noteq> [] \<and> uuid4 e k \<noteq> ''root'')"

text \<open>A parent as the traversal hands it down: none, or an identifier of the run.\<close>

definition drawn :: "run \<Rightarrow> string option \<Rightarrow> bool" where
  "drawn e p = (p = None \<or> (\<exists>k. p = Some (uuid4 e k)))"

text \<open>The slug of the n-th occurrence of a base slug.\<close>

definition expected_slug :: "string \<Rightarrow> nat \<Rightarrow> string" where
  "expected_slug base_slug n = (if n = 1 then base_slug else base_slug @ ''-'' @ str_nat n)"

text \<open>
  The invariant of the tracker: after the records \<open>rs\<close> it holds, for every key, the number
  of records with that key, and no entry for a key that has not occurred.
\<close>

definition counts :: "CategoryRecord list \<Rightarrow> string \<times> string \<Rightarrow> nat" where
  "counts rs key = length (filter (\<lambda>r. record_key r = key) rs)"

definition tracks :: "tracker \<Rightarrow> CategoryRecord list \<Rightarrow> bool" where
  "tracks tr rs = (\<forall>key. tr key = (if counts rs key = 0 then None else Some (counts rs key)))"

fun slugs_from :: "CategoryRecord list \<Rightarrow> CategoryRecord list \<Rightarrow> bool" where
  "slugs_from pre [] = True"
| "slugs_from pre (r # rs) =
     (rec_slug r = expected_slug (snd (record_key r)) (Suc (counts pre (record_key r)))
      \<and> slugs_from (pre @ [r]) rs)"

subsection \<open>The pre-order of a tree\<close>

text \<open>
  The nodes of a tree that are not the sentinel, each before its children and the children in
  the order of the input.
\<close>

fun preorder :: "CategoryNode \<Rightarrow> CategoryNode list" where
  "preorder (CategoryNode i n ch) =
     (if i = Some ''root'' then [] else [CategoryNode i n ch])
     @ (case ch of None \<Rightarrow> [] | Some cs \<Rightarrow> concat (map preorder cs))"

text \<open>The name a node gives its record: \<^verbatim>\<open>data.get('name', '')\<close>.\<close>

definition name_of :: "CategoryNode \<Rightarrow> string" where
  "name_of d = get_name (node_name d)"

text \<open>
  Every record of a list names as its parent an element of \<open>S\<close> or the identifier of a record
  before it.
\<close>

fun linked :: "string option set \<Rightarrow> CategoryRecord list \<Rightarrow> bool" where
  "linked S [] = True"
| "linked S (r # rs) = (rec_parent_id r \<in> S \<and> linked (insert (Some (rec_id r)) S) rs)"

subsection \<open>The table and the batch insert\<close>

text \<open>
  The table \<^verbatim>\<open>ecom_categories\<close>, keyed by \<^verbatim>\<open>id\<close>: a row is the values of the other five
  columns of the insert.
\<close>

record columns =
  col_parent_id :: "string option"
  col_name :: string
  col_slug :: string
  col_is_active :: bool
  col_updated_at :: int

type_synonym table = "string \<rightharpoonup> columns"

text \<open>
  The statement for one row: \<^verbatim>\<open>INSERT ... ON CONFLICT (id) DO UPDATE SET\<close> with the five
  assignments from \<^verbatim>\<open>EXCLUDED\<close>.
\<close>

definition upsert_row :: "CategoryRecord \<Rightarrow> table \<Rightarrow> table" where
  "upsert_row r T =
     (case T (rec_id r) of
        None \<Rightarrow>
          T(rec_id r \<mapsto> \<lparr>col_parent_id = rec_parent_id r, col_name = rec_name r,
                          col_slug = rec_slug r, col_is_active = rec_is_active r,
                          col_updated_at = rec_updated_at r\<rparr>)
      | Some old \<Rightarrow>
          T(rec_id r \<mapsto> old\<lparr>col_parent_id := rec_parent_id r, col_name := rec_name r,
                             col_slug := rec_slug r, col_is_active := rec_is_active r,
                             col_updated_at := rec_updated_at r\<rparr>))"

text \<open>
  A psycopg2 connection, not in autocommit mode: the table as stored, and the table as the
  open transaction sees it. Whether the server rejects a statement or a commit (a constraint,
  a lost connection) is not decided by the script; the theorems hold for every server.
\<close>

record connection =
  committed :: table
  pending :: table

datatype db_error = DatabaseError

record server =
  statement_fails :: "table \<Rightarrow> CategoryRecord list \<Rightarrow> bool"
  commit_fails :: "table \<Rightarrow> bool"

text \<open>
  \<^verbatim>\<open>execute_values(..., page_size=1000)\<close> sends the rows in pages of at most 1000, one
  statement for each page, and stops at the first statement that raises.
\<close>

definition page_size :: nat where
  "page_size = 1000"

function paginate :: "CategoryRecord list \<Rightarrow> CategoryRecord list list" where
  "paginate rows =
     (if rows = [] then [] else take page_size rows # paginate (drop page_size rows))"
  by pat_completeness auto
termination
  by (relation "measure length") (auto simp: page_size_def)

fun execute_values ::
    "server \<Rightarrow> CategoryRecord list list \<Rightarrow> connection \<Rightarrow> db_error option \<times> connection" where
  "execute_values srv [] c = (None, c)"
| "execute_values srv (page # rest) c =
     (if statement_fails srv (pending c) page then (Some DatabaseError, c)
      else execute_values srv rest (c\<lparr>pending := fold upsert_row page (pending c)\<rparr>))"

text \<open>\<^verbatim>\<open>connection.commit()\<close> and \<^verbatim>\<open>connection.rollback()\<close>.\<close>

definition commit :: "server \<Rightarrow> connection \<Rightarrow> db_error option \<times> connection" where
  "commit srv c =
     (if commit_fails srv (pending c) then (Some DatabaseError, c)
      else (None, c\<lparr>committed := pending c\<rparr>))"

definition rollback :: "connection \<Rightarrow> connection" where
  "rollback c = c\<lparr>pending := committed c\<rparr>"

text \<open>
  Lines 109 to 126: the result is the exception that is raised again, or the number of
  categories; the second component is the connection afterwards.
\<close>

definition insert_categories ::
    "server \<Rightarrow> connection \<Rightarrow> CategoryRecord list \<Rightarrow> (db_error + nat) \<times> connection" where
  "insert_categories srv connection categories =
     (case execute_values srv (paginate categories) connection of
        (Some e, c1) \<Rightarrow> (Inl e, rollback c1)
      | (None, c1) \<Rightarrow>
          (case commit srv c1 of
             (Some e, c2) \<Rightarrow> (Inl e, rollback c2)
           | (None, c2) \<Rightarrow> (Inr (length categories), c2)))"

text \<open>The row that a record stores.\<close>

definition columns_of :: "CategoryRecord \<Rightarrow> columns" where
  "columns_of r = \<lparr>col_parent_id = rec_parent_id r, col_name = rec_name r,
                          col_slug = rec_slug r, col_is_active = rec_is_active r,
                          col_updated_at = rec_updated_at r\<rparr>"

subsection \<open>Two runs\<close>

text \<open>
  What \<^verbatim>\<open>uuid.uuid4()\<close> gives in practice: identifiers that are pairwise distinct, not
  empty and not the word \<^verbatim>\<open>root\<close>.
\<close>

definition fresh_ids :: "run \<Rightarrow> bool" where
  "fresh_ids e = (inj (uuid4 e) \<and> (\<forall>k. uuid4 e k \<noteq> [] \<and> uuid4 e k \<noteq> ''root''))"

text \<open>
  The key of the tracker for the children of the record at position \<open>pos\<close> of the output (of
  the top level, for \<open>None\<close>), and the relation between the states of two runs: as many
  calls, and the same counter for the same position and base slug.
\<close>

definition key_at :: "run \<Rightarrow> nat option \<Rightarrow> string \<Rightarrow> string \<times> string" where
  "key_at e pos b = (case pos of None \<Rightarrow> (''root'', b) | Some k \<Rightarrow> (uuid4 e k, b))"

definition same_trackers :: "run \<Rightarrow> run \<Rightarrow> pstate \<Rightarrow> pstate \<Rightarrow> bool" where
  "same_trackers e1 e2 s1 s2 =
     (calls s1 = calls s2
      \<and> (\<forall>pos b. slug_tracker s1 (key_at e1 pos b) = slug_tracker s2 (key_at e2 pos b)))"

subsection \<open>The recursion limit\<close>

text \<open>
  \<^verbatim>\<open>parse_categories\<close> calls itself once for every level of the tree, and the interpreter
  allows a bounded depth of nested calls. In \<open>parse_within m h\<close>, \<open>m\<close> is the number of
  nested calls still allowed when the function is called, and \<open>h\<close> the depth of the calls
  that the body makes for a node that is not the sentinel (\<^verbatim>\<open>uuid.uuid4\<close>,
  \<^verbatim>\<open>generate_slug\<close> and \<^verbatim>\<open>re.sub\<close> below it). A call that is not allowed raises
  \<^verbatim>\<open>RecursionError\<close>, which nothing in the traversal catches. The body is that of
  \<open>parse_categories\<close>.
\<close>

datatype py_error = RecursionError

fun parse_within ::
    "nat \<Rightarrow> nat \<Rightarrow> run \<Rightarrow> CategoryNode \<Rightarrow> string option \<Rightarrow> pstate
       \<Rightarrow> py_error + CategoryRecord list \<times> pstate"
  and extend_within ::
    "nat \<Rightarrow> nat \<Rightarrow> run \<Rightarrow> CategoryNode list \<Rightarrow> string option \<Rightarrow> pstate
       \<Rightarrow> py_error + CategoryRecord list \<times> pstate"
where
  "parse_within 0 h e d parent_id st = Inl RecursionError"
| "parse_within (Suc m) h e (CategoryNode i n ch) parent_id st =
     (if i = Some ''root'' then
        (case ch of None \<Rightarrow> Inr ([], st) | Some cs \<Rightarrow> extend_within m h e cs None st)
      else if m < h then Inl RecursionError
      else
        (let category_id = uuid4 e (calls st);
             name = get_name n;
             base_slug = generate_slug name;
             (slug, tr) = track_slug (slug_tracker st) (parent_key parent_id base_slug);
             r = \<lparr>rec_id = category_id, rec_parent_id = parent_id, rec_name = name,
                  rec_slug = slug, rec_is_active = True, rec_updated_at = now e (calls st)\<rparr>;
             st1 = \<lparr>slug_tracker = tr, calls = Suc (calls st)\<rparr>
         in case (case ch of None \<Rightarrow> Inr ([], st1)
                  | Some cs \<Rightarrow> extend_within m h e cs (Some category_id) st1) of
              Inl err \<Rightarrow> Inl err
            | Inr (rs, st2) \<Rightarrow> Inr (r # rs, st2)))"
| "extend_within m h e [] parent_id st = Inr ([], st)"
| "extend_within m h e (c # cs) parent_id st =
     (case parse_within m h e c parent_id st of
        Inl err \<Rightarrow> Inl err
      | Inr (a, st1) \<Rightarrow>
          (case extend_within m h e cs parent_id st1 of
             Inl err \<Rightarrow> Inl err
           | Inr (b, st2) \<Rightarrow> Inr (a @ b, st2)))"

text \<open>
  The depth of nested calls a tree asks for: one for each level, and \<open>h\<close> more below a node
  that is not the sentinel.
\<close>

fun frames_needed :: "nat \<Rightarrow> CategoryNode \<Rightarrow> nat" where
  "frames_needed h (CategoryNode i n ch) =
     Suc (max (if i = Some ''root'' then 0 else h)
            (case ch of None \<Rightarrow> 0 | Some cs \<Rightarrow> foldr max (map (frames_needed h) cs) 0))"

subsection \<open>The parent of a record, by position\<close>

text \<open>
  For every node of a tree that is not the sentinel, in pre-order, the position in the
  output of the record of the nearest node above it, when that node is not the sentinel, and
  none otherwise; \<open>k\<close> is the position of the first record of the subtree.
\<close>

fun parent_positions_from :: "nat \<Rightarrow> nat option \<Rightarrow> CategoryNode \<Rightarrow> nat option list"
  and parent_positions_list :: "nat \<Rightarrow> nat option \<Rightarrow> CategoryNode list \<Rightarrow> nat option list"
where
  "parent_positions_from k pos (CategoryNode i n ch) =
     (if i = Some ''root'' then
        (case ch of None \<Rightarrow> [] | Some cs \<Rightarrow> parent_positions_list k None cs)
      else
        pos # (case ch of None \<Rightarrow> [] | Some cs \<Rightarrow> parent_positions_list (Suc k) (Some k) cs))"
| "parent_positions_list k pos [] = []"
| "parent_positions_list k pos (c # cs) =
     parent_positions_from k pos c @ parent_positions_list (k + count_non_root c) pos cs"

definition parent_positions :: "CategoryNode \<Rightarrow> nat option list" where
  "parent_positions T = parent_positions_from 0 None T"

subsection \<open>Examples\<close>

text \<open>A run whose k-th identifier is \<^verbatim>\<open>u\<close> followed by k, at time k.\<close>

definition example_run :: run where
  "example_run = \<lparr>uuid4 = (\<lambda>k. CHR ''u'' # str_nat k), now = (\<lambda>k. int k)\<rparr>"

definition leaf :: "string \<Rightarrow> CategoryNode" where
  "leaf s = CategoryNode None (Some s) None"

definition mens_shoes :: string where
  "mens_shoes = ''Men'' @ [char_of (39::nat)] @ ''s Shoes''"

text \<open>
  A root with three children; the second has a child \<^verbatim>\<open>y\<close> and a nested sentinel whose
  child is \<^verbatim>\<open>x\<close>.
\<close>

definition example_tree :: CategoryNode where
  "example_tree =
     CategoryNode (Some ''root'') None
       (Some [leaf ''a'',
              CategoryNode (Some ''7'') (Some ''b'')
                (Some [leaf ''y'', CategoryNode (Some ''root'') None (Some [leaf ''x''])]),
              leaf ''c''])"

text \<open>
  Three siblings with the same name, and three siblings of which the last is named as the
  second is numbered.
\<close>

definition three_shoes :: CategoryNode where
  "three_shoes =
     CategoryNode (Some ''root'') None (Some [leaf mens_shoes, leaf mens_shoes, leaf mens_shoes])"

definition clash_tree :: CategoryNode where
  "clash_tree = CategoryNode (Some ''root'') None (Some [leaf ''a'', leaf ''a'', leaf ''a-2''])"

text \<open>A sentinel below the top of a tree, as in \<open>example_tree\<close>.\<close>

definition nested_sentinel :: CategoryNode where
  "nested_sentinel = CategoryNode (Some ''root'') None (Some [leaf ''x''])"

text \<open>
  A server with a check that slugs are not empty, a connection to an empty table, and a batch
  whose second record has an empty slug.
\<close>

definition strict_server :: server where
  "strict_server = \<lparr>statement_fails = (\<lambda>T page. list_ex (\<lambda>r. rec_slug r = []) page),
                     commit_fails = (\<lambda>T. False)\<rparr>"

definition empty_connection :: connection where
  "empty_connection = \<lparr>committed = Map.empty, pending = Map.empty\<rparr>"

definition batch_with_empty_slug :: "CategoryRecord list" where
  "batch_with_empty_slug =
     parse_tree example_run (CategoryNode (Some ''root'') None (Some [leaf ''a'', leaf ''!'']))"

text \<open>Two runs that draw different identifiers at different times.\<close>

definition first_run :: run where
  "first_run = \<lparr>uuid4 = (\<lambda>k. replicate (Suc k) CHR ''a''), now = (\<lambda>k. 100 + int k)\<rparr>"

definition second_run :: run where
  "second_run = \<lparr>uuid4 = (\<lambda>k. replicate (Suc k) CHR ''b''), now = (\<lambda>k. 200 + int k)\<rparr>"

text \<open>Two nodes under the root, each with children of the same name.\<close>

definition two_families :: CategoryNode where
  "two_families =
     CategoryNode (Some ''root'') None
       (Some [CategoryNode None (Some ''p'') (Some [leaf ''k'', leaf ''k'']),
              CategoryNode None (Some ''q'') (Some [leaf ''k''])])"

section \<open>Properties\<close>

subsection \<open>The equations of the traversal\<close>

lemma parse_root:
  "parse_categories e (CategoryNode (Some ''root'') n ch) p st =
     extend_children e (kids ch) None st"
  by (simp add: kids_def split: option.split)

lemma parse_node:
  "i \<noteq> Some ''root'' \<Longrightarrow>
   parse_categories e (CategoryNode i n ch) p st =
     (fst (emit e n p st)
        # fst (extend_children e (kids ch) (Some (rec_id (fst (emit e n p st)))) (snd (emit e n p st))),
      snd (extend_children e (kids ch) (Some (rec_id (fst (emit e n p st)))) (snd (emit e n p st))))"
  by (simp add: kids_def emit_def Let_def split: option.split prod.split)

lemma extend_cons:
  "extend_children e (c # cs) p st =
     (fst (parse_categories e c p st)
        @ fst (extend_children e cs p (snd (parse_categories e c p st))),
      snd (extend_children e cs p (snd (parse_categories e c p st))))"
  by (simp add: Let_def split: prod.split)

declare parse_categories.simps [simp del]
declare extend_children.simps(2) [simp del]

lemma rec_id_emit: "rec_id (fst (emit e n p st)) = uuid4 e (calls st)"
  by (simp add: emit_def Let_def split: prod.split)

lemma calls_emit: "calls (snd (emit e n p st)) = Suc (calls st)"
  by (simp add: emit_def Let_def split: prod.split)

lemma count_kids:
  "count_non_root (CategoryNode i n ch) =
     (if i = Some ''root'' then 0 else 1) + sum_list (map count_non_root (kids ch))"
  by (simp add: kids_def split: option.split)

declare count_non_root.simps [simp del]

text \<open>
  Induction along the traversal: a property of a node follows from the property of its
  list of children, and a property of a list from those of its head and of its tail, in
  any state and under any parent.
\<close>

lemma node_induct:
  assumes "\<And>i n ch. (\<And>c. c \<in> set (kids ch) \<Longrightarrow> P c) \<Longrightarrow> P (CategoryNode i n ch)"
  shows "P d"
proof (induction d)
  case (CategoryNode i n ch)
  show ?case
  proof (rule assms)
    fix c assume "c \<in> set (kids ch)"
    then show "P c" using CategoryNode by (cases ch) (auto simp: kids_def)
  qed
qed

lemma traversal_induct:
  assumes node: "\<And>i n ch p st. (\<And>q s. Q (kids ch) q s) \<Longrightarrow> P (CategoryNode i n ch) p st"
    and nil: "\<And>p st. Q [] p st"
    and cons: "\<And>c cs p st. (\<And>q s. P c q s) \<Longrightarrow> (\<And>q s. Q cs q s) \<Longrightarrow> Q (c # cs) p st"
  shows "P d p st" and "Q ds p st"
proof -
  have lift: "Q cs q s" if "\<And>c q s. c \<in> set cs \<Longrightarrow> P c q s" for cs q s
    using that
  proof (induction cs arbitrary: q s)
    case Nil
    show ?case by (rule nil)
  next
    case (Cons c cs)
    show ?case by (rule cons) (simp_all add: Cons)
  qed
  have all: "\<forall>p st. P x p st" for x
  proof (induction x rule: node_induct)
    case (1 i n ch)
    then show ?case by (intro allI node lift) blast
  qed
  show "P d p st" using all by blast
  show "Q ds p st" by (rule lift) (use all in blast)
qed

subsection \<open>The number of records\<close>

lemma length_parse_extend:
  shows "length (fst (parse_categories e d p st)) = count_non_root d"
    and "length (fst (extend_children e ds p st)) = sum_list (map count_non_root ds)"
proof (induction d p st and ds p st rule: traversal_induct)
  case (1 i n ch p st)
  then show ?case
    by (cases "i = Some ''root''") (simp_all add: parse_root parse_node count_kids)
next
  case (2 p st)
  show ?case by simp
next
  case (3 c cs p st)
  then show ?case by (simp add: extend_cons)
qed

text \<open>
  C4. For every input tree, the number of records that \<^verbatim>\<open>parse_categories\<close> emits is the
  number of nodes of the tree that are not the sentinel \<^verbatim>\<open>root\<close>.
\<close>

theorem record_count: "length (parse_tree e T) = count_non_root T"
  by (simp add: parse_tree_def length_parse_extend)

subsection \<open>The slug of a name\<close>

lemma re_sub_class_empty: "re_sub_class cls [] s = filter (\<lambda>c. \<not> cls c) s"
  by (induction s) simp_all

lemma re_sub_class_plus_collapse:
  "re_sub_class_plus hyphen_or_space [hyphen] s = collapse_runs s"
proof (induction s rule: collapse_runs.induct)
  case 1
  show ?case by simp
next
  case (2 c)
  show ?case by (simp add: hyphen_or_space_def separator_def)
next
  case (3 c d cs)
  then show ?case by (auto simp: hyphen_or_space_def separator_def)
qed

lemma rev_dropWhile_rev:
  "rev (dropWhile P (rev t)) = take (length t - length (takeWhile P (rev t))) t"
proof -
  have "rev (dropWhile P (rev t)) = rev (drop (length (takeWhile P (rev t))) (rev t))"
    by (simp only: dropWhile_eq_drop)
  also have "\<dots> = take (length t - length (takeWhile P (rev t))) t"
    by (simp add: rev_drop)
  finally show ?thesis .
qed

lemma strip_trim: "strip hyphen s = trim_hyphens s"
  unfolding strip_def trim_hyphens_def Let_def rev_dropWhile_rev
  by (simp only: dropWhile_eq_drop)

lemma keep_char_class: "(\<lambda>c. \<not> not_word_space_hyphen c) = keep_char"
  by (rule ext) (simp add: not_word_space_hyphen_def keep_char_def)

lemma generate_slug_spec: "generate_slug name = spec_slug name"
  by (simp add: generate_slug_def spec_slug_def lower_def re_sub_class_empty
      re_sub_class_plus_collapse strip_trim keep_char_class)

text \<open>
  C5. For every name, \<^verbatim>\<open>generate_slug\<close> returns the name lowercased, without the
  characters that are neither word characters nor whitespace nor hyphens, with every run of
  whitespace and hyphens collapsed to one hyphen, and without leading and trailing hyphens.
  The slug of \<^verbatim>\<open>Men's Shoes\<close> is \<^verbatim>\<open>mens-shoes\<close>; the slug of the empty name, and of
  the name a node without the key \<^verbatim>\<open>name\<close> gets, is empty.
\<close>

theorem generate_slug_normalises:
  "generate_slug name = spec_slug name
   \<and> generate_slug mens_shoes = ''mens-shoes''
   \<and> generate_slug [] = []
   \<and> generate_slug (get_name None) = []"
proof (intro conjI)
  show "generate_slug name = spec_slug name" by (rule generate_slug_spec)
  show "generate_slug mens_shoes = ''mens-shoes''" by code_simp
  show "generate_slug [] = []" by code_simp
  show "generate_slug (get_name None) = []" by code_simp
qed

subsection \<open>The counter of a slug\<close>

lemma slugs_from_append:
  "slugs_from pre (xs @ ys) = (slugs_from pre xs \<and> slugs_from (pre @ xs) ys)"
  by (induction xs arbitrary: pre) auto

lemma record_key_emit:
  "record_key (fst (emit e n p st)) = parent_key p (generate_slug (get_name n))"
  by (simp add: emit_def record_key_def Let_def split: prod.split)

lemma snd_parent_key: "snd (parent_key p b) = b"
  by (simp add: parent_key_def)

lemma emit_slug:
  assumes "tracks (slug_tracker st) pre"
  shows "rec_slug (fst (emit e n p st)) =
           expected_slug (snd (record_key (fst (emit e n p st))))
             (Suc (counts pre (record_key (fst (emit e n p st)))))"
proof -
  let ?key = "parent_key p (generate_slug (get_name n))"
  have tr: "slug_tracker st ?key = (if counts pre ?key = 0 then None else Some (counts pre ?key))"
    using assms unfolding tracks_def by blast
  have "rec_slug (fst (emit e n p st)) = fst (track_slug (slug_tracker st) ?key)"
    by (simp add: emit_def Let_def split: prod.split)
  also have "\<dots> = expected_slug (snd ?key) (Suc (counts pre ?key))"
    using tr by (simp add: track_slug_def expected_slug_def hyphen_def)
  finally show ?thesis by (simp add: record_key_emit)
qed

lemma emit_tracks:
  assumes "tracks (slug_tracker st) pre"
  shows "tracks (slug_tracker (snd (emit e n p st))) (pre @ [fst (emit e n p st)])"
proof -
  let ?key = "parent_key p (generate_slug (get_name n))"
  have tr: "\<And>k. slug_tracker st k = (if counts pre k = 0 then None else Some (counts pre k))"
    using assms unfolding tracks_def by blast
  have st: "slug_tracker (snd (emit e n p st)) = snd (track_slug (slug_tracker st) ?key)"
    by (simp add: emit_def Let_def split: prod.split)
  have c: "counts (pre @ [fst (emit e n p st)]) k = counts pre k + (if k = ?key then 1 else 0)" for k
    by (auto simp: counts_def record_key_emit)
  show ?thesis
    unfolding tracks_def st
    by (auto simp: c tr track_slug_def)
qed

lemma slugs_parse_extend:
  shows "\<forall>pre. tracks (slug_tracker st) pre \<longrightarrow>
           slugs_from pre (fst (parse_categories e d p st))
           \<and> tracks (slug_tracker (snd (parse_categories e d p st)))
                (pre @ fst (parse_categories e d p st))"
    and "\<forall>pre. tracks (slug_tracker st) pre \<longrightarrow>
           slugs_from pre (fst (extend_children e ds p st))
           \<and> tracks (slug_tracker (snd (extend_children e ds p st)))
                (pre @ fst (extend_children e ds p st))"
proof (induction d p st and ds p st rule: traversal_induct)
  case (1 i n ch p st)
  show ?case
  proof (cases "i = Some ''root''")
    case True
    then show ?thesis using 1 by (simp add: parse_root)
  next
    case False
    show ?thesis
    proof (intro allI impI)
      fix pre assume t: "tracks (slug_tracker st) pre"
      let ?r = "fst (emit e n p st)"
      let ?st1 = "snd (emit e n p st)"
      have t1: "tracks (slug_tracker ?st1) (pre @ [?r])" by (rule emit_tracks [OF t])
      from 1 t1
      have "slugs_from (pre @ [?r]) (fst (extend_children e (kids ch) (Some (rec_id ?r)) ?st1))
            \<and> tracks (slug_tracker (snd (extend_children e (kids ch) (Some (rec_id ?r)) ?st1)))
                ((pre @ [?r]) @ fst (extend_children e (kids ch) (Some (rec_id ?r)) ?st1))"
        by blast
      then show "slugs_from pre (fst (parse_categories e (CategoryNode i n ch) p st))
           \<and> tracks (slug_tracker (snd (parse_categories e (CategoryNode i n ch) p st)))
                (pre @ fst (parse_categories e (CategoryNode i n ch) p st))"
        using False emit_slug [OF t] by (simp add: parse_node)
    qed
  qed
next
  case (2 p st)
  show ?case by simp
next
  case (3 c cs p st)
  show ?case
  proof (intro allI impI)
    fix pre assume t: "tracks (slug_tracker st) pre"
    let ?a = "fst (parse_categories e c p st)"
    let ?st1 = "snd (parse_categories e c p st)"
    from 3(1) t have a: "slugs_from pre ?a" and t1: "tracks (slug_tracker ?st1) (pre @ ?a)"
      by blast+
    from 3(2) t1
    have "slugs_from (pre @ ?a) (fst (extend_children e cs p ?st1))
          \<and> tracks (slug_tracker (snd (extend_children e cs p ?st1)))
              ((pre @ ?a) @ fst (extend_children e cs p ?st1))"
      by blast
    then show "slugs_from pre (fst (extend_children e (c # cs) p st))
           \<and> tracks (slug_tracker (snd (extend_children e (c # cs) p st)))
                (pre @ fst (extend_children e (c # cs) p st))"
      using a by (simp add: extend_cons slugs_from_append)
  qed
qed

lemma slugs_from_nth:
  "slugs_from pre out \<Longrightarrow> k < length out \<Longrightarrow>
   rec_slug (out ! k) =
     expected_slug (snd (record_key (out ! k)))
       (counts (pre @ take (Suc k) out) (record_key (out ! k)))"
proof (induction out arbitrary: pre k)
  case Nil
  then show ?case by simp
next
  case (Cons r rs)
  show ?case
  proof (cases k)
    case 0
    then show ?thesis using Cons.prems by (simp add: counts_def)
  next
    case (Suc j)
    then have "rec_slug (rs ! j) = expected_slug (snd (record_key (rs ! j)))
       (counts ((pre @ [r]) @ take (Suc j) rs) (record_key (rs ! j)))"
      using Cons.prems by (intro Cons.IH) simp_all
    then show ?thesis using Suc by simp
  qed
qed

lemma tracks_initial: "tracks (slug_tracker initial) []"
  by (simp add: tracks_def initial_def counts_def)

text \<open>
  C1. Two records with the same parent should have different slugs. The tracker counts base
  slugs only, so a numbered slug can meet the base slug of another sibling: of three children
  of the root named \<^verbatim>\<open>a\<close>, \<^verbatim>\<open>a\<close> and \<^verbatim>\<open>a-2\<close>, the second and the third both get the
  slug \<^verbatim>\<open>a-2\<close>.
\<close>

theorem sibling_slugs_clash:
  "map rec_parent_id (parse_tree example_run clash_tree) = [None, None, None]
   \<and> map rec_slug (parse_tree example_run clash_tree) = [''a'', ''a-2'', ''a-2'']"
  by code_simp

subsection \<open>The order of the records\<close>

lemma preorder_kids:
  "preorder (CategoryNode i n ch) =
     (if i = Some ''root'' then [] else [CategoryNode i n ch]) @ concat (map preorder (kids ch))"
  by (simp add: kids_def split: option.split)

declare preorder.simps [simp del]

lemma rec_name_emit: "rec_name (fst (emit e n p st)) = get_name n"
  by (simp add: emit_def Let_def split: prod.split)

lemma rec_parent_emit: "rec_parent_id (fst (emit e n p st)) = p"
  by (simp add: emit_def Let_def split: prod.split)

lemma names_parse_extend:
  shows "map rec_name (fst (parse_categories e d p st)) = map name_of (preorder d)"
    and "map rec_name (fst (extend_children e ds p st)) = map name_of (concat (map preorder ds))"
proof (induction d p st and ds p st rule: traversal_induct)
  case (1 i n ch p st)
  then show ?case
    by (cases "i = Some ''root''")
       (simp_all add: parse_root parse_node preorder_kids rec_name_emit name_of_def)
next
  case (2 p st)
  show ?case by simp
next
  case (3 c cs p st)
  then show ?case by (simp add: extend_cons)
qed

lemma linked_mono: "linked S xs \<Longrightarrow> S \<subseteq> S' \<Longrightarrow> linked S' xs"
proof (induction xs arbitrary: S S')
  case Nil
  show ?case by simp
next
  case (Cons r rs)
  from Cons.prems have "linked (insert (Some (rec_id r)) S) rs" by simp
  then have "linked (insert (Some (rec_id r)) S') rs"
    by (rule Cons.IH) (use Cons.prems in blast)
  then show ?case using Cons.prems by auto
qed

lemma linked_append: "linked S xs \<Longrightarrow> linked S ys \<Longrightarrow> linked S (xs @ ys)"
proof (induction xs arbitrary: S)
  case Nil
  then show ?case by simp
next
  case (Cons r rs)
  have "linked (insert (Some (rec_id r)) S) ys"
    by (rule linked_mono [OF Cons.prems(2)]) blast
  then show ?case using Cons by simp
qed

lemma linked_parse_extend:
  shows "\<forall>S. None \<in> S \<and> p \<in> S \<longrightarrow> linked S (fst (parse_categories e d p st))"
    and "\<forall>S. None \<in> S \<and> p \<in> S \<longrightarrow> linked S (fst (extend_children e ds p st))"
proof (induction d p st and ds p st rule: traversal_induct)
  case (1 i n ch p st)
  show ?case
  proof (cases "i = Some ''root''")
    case True
    then show ?thesis using 1 by (simp add: parse_root)
  next
    case False
    then show ?thesis using 1 by (simp add: parse_node rec_parent_emit)
  qed
next
  case (2 p st)
  show ?case by simp
next
  case (3 c cs p st)
  then show ?case by (simp add: extend_cons linked_append)
qed

lemma linked_nth:
  "linked S out \<Longrightarrow> k < length out \<Longrightarrow>
   rec_parent_id (out ! k) \<in> S \<or> (\<exists>j<k. rec_parent_id (out ! k) = Some (rec_id (out ! j)))"
proof (induction out arbitrary: S k)
  case Nil
  then show ?case by simp
next
  case (Cons r rs)
  show ?case
  proof (cases k)
    case 0
    then show ?thesis using Cons.prems by simp
  next
    case (Suc m)
    with Cons.prems have "linked (insert (Some (rec_id r)) S) rs" "m < length rs" by simp_all
    from Cons.IH [OF this]
    consider "rec_parent_id (rs ! m) = Some (rec_id r)" | "rec_parent_id (rs ! m) \<in> S"
      | j where "j < m" "rec_parent_id (rs ! m) = Some (rec_id (rs ! j))"
      by blast
    then show ?thesis
    proof cases
      case 1
      then have "0 < k \<and> rec_parent_id ((r # rs) ! k) = Some (rec_id ((r # rs) ! 0))"
        using Suc by simp
      then show ?thesis by blast
    next
      case 2
      then show ?thesis using Suc by simp
    next
      case 3
      then have "Suc j < k \<and> rec_parent_id ((r # rs) ! k) = Some (rec_id ((r # rs) ! Suc j))"
        using Suc by simp
      then show ?thesis by blast
    qed
  qed
qed

text \<open>
  C2. The output of \<^verbatim>\<open>parse_categories\<close> is the pre-order of the input tree without its
  sentinel nodes: record by record it carries the names of the nodes in pre-order (a node
  before its children, the subtree of a child before the next child), and a record that has a
  parent identifier comes after the record with that identifier.
\<close>

theorem output_is_preorder:
  "map rec_name (parse_tree e T) = map name_of (preorder T)
   \<and> (k < length (parse_tree e T) \<and> rec_parent_id (parse_tree e T ! k) = Some u
        \<longrightarrow> (\<exists>j<k. rec_id (parse_tree e T ! j) = u))"
proof (intro conjI impI)
  show "map rec_name (parse_tree e T) = map name_of (preorder T)"
    by (simp add: parse_tree_def names_parse_extend)
next
  assume a: "k < length (parse_tree e T) \<and> rec_parent_id (parse_tree e T ! k) = Some u"
  have "linked {None} (parse_tree e T)"
    using linked_parse_extend(1) [of None e T initial] by (simp add: parse_tree_def)
  from linked_nth [OF this, of k] a show "\<exists>j<k. rec_id (parse_tree e T ! j) = u"
    by auto
qed

theorem output_is_preorder_witness:
  "2 < length (parse_tree example_run example_tree)
   \<and> rec_parent_id (parse_tree example_run example_tree ! 2) = Some ''u1''
   \<and> (\<exists>j<2. rec_id (parse_tree example_run example_tree ! j) = ''u1'')
   \<and> map rec_name (parse_tree example_run example_tree) = [''a'', ''b'', ''y'', ''x'', ''c'']"
proof -
  have k: "2 < length (parse_tree example_run example_tree)"
    by code_simp
  have u: "rec_parent_id (parse_tree example_run example_tree ! 2) = Some ''u1''"
    by code_simp
  have n: "map name_of (preorder example_tree) = [''a'', ''b'', ''y'', ''x'', ''c'']"
    by code_simp
  from output_is_preorder [of example_run example_tree 2 "''u1''"] k u n
  show ?thesis by simp
qed

subsection \<open>The sentinel\<close>

lemma extend_append:
  "fst (extend_children e (xs @ ys) p st) =
     fst (extend_children e xs p st) @ fst (extend_children e ys p (snd (extend_children e xs p st)))"
  "snd (extend_children e (xs @ ys) p st) =
     snd (extend_children e ys p (snd (extend_children e xs p st)))"
  by (induction xs arbitrary: st) (simp_all add: extend_cons)

lemma child_record:
  assumes j: "j < length cs" and nr: "node_id (cs ! j) \<noteq> Some ''root''"
  shows "sum_list (map count_non_root (take j cs)) < length (fst (extend_children e cs p st))
    \<and> rec_parent_id (fst (extend_children e cs p st) ! sum_list (map count_non_root (take j cs))) = p
    \<and> rec_name (fst (extend_children e cs p st) ! sum_list (map count_non_root (take j cs)))
        = name_of (cs ! j)"
proof -
  let ?pre = "take j cs" and ?post = "drop (Suc j) cs"
  let ?st1 = "snd (extend_children e ?pre p st)"
  obtain i n ch where c: "cs ! j = CategoryNode i n ch" by (cases "cs ! j")
  with nr have i: "i \<noteq> Some ''root''" by simp
  have cs: "cs = ?pre @ (cs ! j # ?post)" using j by (simp add: id_take_nth_drop)
  have "fst (extend_children e cs p st) =
      fst (extend_children e ?pre p st) @ fst (extend_children e (cs ! j # ?post) p ?st1)"
    by (subst cs) (simp only: extend_append)
  also have "\<dots> = fst (extend_children e ?pre p st)
      @ (fst (emit e n p ?st1) # fst (extend_children e (kids ch) (Some (rec_id (fst (emit e n p ?st1)))) (snd (emit e n p ?st1))))
      @ fst (extend_children e ?post p (snd (parse_categories e (cs ! j) p ?st1)))"
    using i by (simp add: extend_cons c parse_node)
  finally have out: "fst (extend_children e cs p st) = fst (extend_children e ?pre p st)
      @ fst (emit e n p ?st1) # (fst (extend_children e (kids ch) (Some (rec_id (fst (emit e n p ?st1)))) (snd (emit e n p ?st1)))
      @ fst (extend_children e ?post p (snd (parse_categories e (cs ! j) p ?st1))))"
    by simp
  have len: "length (fst (extend_children e ?pre p st)) = sum_list (map count_non_root ?pre)"
    by (rule length_parse_extend)
  show ?thesis
    unfolding out len [symmetric]
    by (simp add: rec_parent_emit rec_name_emit name_of_def c)
qed

lemma preorder_no_sentinel:
  "\<forall>x \<in> set (preorder d). node_id x \<noteq> Some ''root''"
proof (induction d rule: node_induct)
  case (1 i n ch)
  then show ?case by (auto simp: preorder_kids)
qed

lemma parse_sentinel:
  "node_id S = Some ''root'' \<Longrightarrow>
   parse_categories e S p st = extend_children e (kids (childNodes S)) None st"
  by (cases S) (simp add: parse_root)

text \<open>
  C3. The records are those of the nodes in pre-order, none of which has the identifier
  \<^verbatim>\<open>root\<close>: a sentinel node produces no record. When the tree's root is the sentinel, the
  record of each of its direct children (the j-th child's record stands after the records of
  the subtrees of the children before it) has no parent identifier.
\<close>

theorem root_sentinel:
  "map rec_name (parse_tree e T) = map name_of (preorder T)
   \<and> (d \<in> set (preorder T) \<longrightarrow> node_id d \<noteq> Some ''root'')
   \<and> (node_id T = Some ''root'' \<and> j < length (kids (childNodes T))
        \<and> node_id (kids (childNodes T) ! j) \<noteq> Some ''root''
      \<longrightarrow> (let k = sum_list (map count_non_root (take j (kids (childNodes T))))
           in k < length (parse_tree e T)
              \<and> rec_parent_id (parse_tree e T ! k) = None
              \<and> rec_name (parse_tree e T ! k) = name_of (kids (childNodes T) ! j)))"
proof (intro conjI impI)
  show "map rec_name (parse_tree e T) = map name_of (preorder T)"
    by (simp add: parse_tree_def names_parse_extend)
next
  assume "d \<in> set (preorder T)"
  then show "node_id d \<noteq> Some ''root''" using preorder_no_sentinel by blast
next
  assume a: "node_id T = Some ''root'' \<and> j < length (kids (childNodes T))
        \<and> node_id (kids (childNodes T) ! j) \<noteq> Some ''root''"
  then have "parse_tree e T = fst (extend_children e (kids (childNodes T)) None initial)"
    by (simp add: parse_tree_def parse_sentinel)
  with child_record [of j "kids (childNodes T)" e None initial] a
  show "let k = sum_list (map count_non_root (take j (kids (childNodes T))))
           in k < length (parse_tree e T)
              \<and> rec_parent_id (parse_tree e T ! k) = None
              \<and> rec_name (parse_tree e T ! k) = name_of (kids (childNodes T) ! j)"
    by (simp add: Let_def)
qed

theorem root_sentinel_witness:
  "leaf ''c'' \<in> set (preorder example_tree)
   \<and> node_id (leaf ''c'') \<noteq> Some ''root''
   \<and> node_id example_tree = Some ''root''
   \<and> 2 < length (kids (childNodes example_tree))
   \<and> kids (childNodes example_tree) ! 2 = leaf ''c''
   \<and> sum_list (map count_non_root (take 2 (kids (childNodes example_tree)))) = 4
   \<and> 4 < length (parse_tree example_run example_tree)
   \<and> rec_parent_id (parse_tree example_run example_tree ! 4) = None
   \<and> rec_name (parse_tree example_run example_tree ! 4) = ''c''"
proof -
  have d: "leaf ''c'' \<in> set (preorder example_tree)" by code_simp
  have r: "node_id example_tree = Some ''root''" by code_simp
  have j: "2 < length (kids (childNodes example_tree))" by code_simp
  have c: "kids (childNodes example_tree) ! 2 = leaf ''c''" by code_simp
  have nr: "node_id (leaf ''c'') \<noteq> Some ''root''" by code_simp
  have k: "sum_list (map count_non_root (take 2 (kids (childNodes example_tree)))) = 4"
    by code_simp
  have n: "name_of (leaf ''c'') = ''c''" by code_simp
  from root_sentinel [of example_run example_tree "leaf ''c''" 2] d r j c nr k n
  show ?thesis by (simp add: Let_def)
qed

text \<open>
  C10. A node with the identifier \<^verbatim>\<open>root\<close> is treated as the sentinel wherever it is in
  the tree: whatever parent it is reached under and in whatever state, it emits no record of
  its own and its children are traversed as under no parent, so the record of each direct
  child has no parent identifier.
\<close>

theorem nested_sentinel_reroots:
  "node_id S = Some ''root'' \<longrightarrow>
     parse_categories e S p st = parse_categories e S None st
     \<and> length (fst (parse_categories e S p st))
         = sum_list (map count_non_root (kids (childNodes S)))
     \<and> (j < length (kids (childNodes S)) \<and> node_id (kids (childNodes S) ! j) \<noteq> Some ''root''
        \<longrightarrow> (let k = sum_list (map count_non_root (take j (kids (childNodes S))))
             in k < length (fst (parse_categories e S p st))
                \<and> rec_parent_id (fst (parse_categories e S p st) ! k) = None
                \<and> rec_name (fst (parse_categories e S p st) ! k)
                    = name_of (kids (childNodes S) ! j)))"
proof (intro conjI impI)
  assume s: "node_id S = Some ''root''"
  show "parse_categories e S p st = parse_categories e S None st"
    using s by (simp add: parse_sentinel)
  show "length (fst (parse_categories e S p st))
         = sum_list (map count_non_root (kids (childNodes S)))"
    using s by (simp add: parse_sentinel length_parse_extend)
  assume "j < length (kids (childNodes S)) \<and> node_id (kids (childNodes S) ! j) \<noteq> Some ''root''"
  with child_record [of j "kids (childNodes S)" e None st] s
  show "let k = sum_list (map count_non_root (take j (kids (childNodes S))))
             in k < length (fst (parse_categories e S p st))
                \<and> rec_parent_id (fst (parse_categories e S p st) ! k) = None
                \<and> rec_name (fst (parse_categories e S p st) ! k)
                    = name_of (kids (childNodes S) ! j)"
    by (simp add: parse_sentinel Let_def)
qed

theorem nested_sentinel_reroots_witness:
  "node_id nested_sentinel = Some ''root''
   \<and> 0 < length (kids (childNodes nested_sentinel))
   \<and> kids (childNodes nested_sentinel) ! 0 = leaf ''x''
   \<and> node_id (leaf ''x'') \<noteq> Some ''root''
   \<and> length (fst (parse_categories example_run nested_sentinel (Some ''u1'') initial)) = 1
   \<and> rec_parent_id (fst (parse_categories example_run nested_sentinel (Some ''u1'') initial) ! 0) = None
   \<and> rec_name (fst (parse_categories example_run nested_sentinel (Some ''u1'') initial) ! 0) = ''x''
   \<and> map rec_parent_id (parse_tree example_run example_tree)
       = [None, None, Some ''u1'', None, None]"
proof -
  have s: "node_id nested_sentinel = Some ''root''" by code_simp
  have j: "0 < length (kids (childNodes nested_sentinel))" by code_simp
  have c: "kids (childNodes nested_sentinel) ! 0 = leaf ''x''" by code_simp
  have nr: "node_id (leaf ''x'') \<noteq> Some ''root''" by code_simp
  have k: "sum_list (map count_non_root (kids (childNodes nested_sentinel))) = 1" by code_simp
  have n: "name_of (leaf ''x'') = ''x''" by code_simp
  have t: "map rec_parent_id (parse_tree example_run example_tree)
       = [None, None, Some ''u1'', None, None]" by code_simp
  from nested_sentinel_reroots [of nested_sentinel example_run "Some ''u1''" initial 0]
    s j c nr k n t
  show ?thesis by (auto simp: Let_def)
qed

subsection \<open>The batch insert\<close>

lemma overwrite_all_columns:
  "old\<lparr>col_parent_id := a, col_name := b, col_slug := c, col_is_active := d,
        col_updated_at := t\<rparr> =
   \<lparr>col_parent_id = a, col_name = b, col_slug = c, col_is_active = d, col_updated_at = t\<rparr>"
  by (cases old) simp

lemma upsert_row_overwrites: "upsert_row r T = T(rec_id r \<mapsto> columns_of r)"
  by (cases "T (rec_id r)") (simp_all add: upsert_row_def columns_of_def overwrite_all_columns)

lemma fold_upsert:
  "fold upsert_row rows T = T ++ map_of (rev (map (\<lambda>r. (rec_id r, columns_of r)) rows))"
proof (induction rows arbitrary: T)
  case Nil
  show ?case by simp
next
  case (Cons r rows)
  have "fold upsert_row (r # rows) T
      = upsert_row r T ++ map_of (rev (map (\<lambda>r. (rec_id r, columns_of r)) rows))"
    by (simp add: Cons.IH)
  also have "\<dots> = T ++ map_of (rev (map (\<lambda>r. (rec_id r, columns_of r)) (r # rows)))"
    by (rule ext) (simp add: upsert_row_overwrites map_add_def split: option.split)
  finally show ?case .
qed

lemma map_add_twice: "(T ++ m) ++ m = T ++ m"
  by (rule ext) (simp add: map_add_def split: option.split)

lemma fold_upsert_twice:
  "fold upsert_row rows (fold upsert_row rows T) = fold upsert_row rows T"
  by (simp only: fold_upsert map_add_twice)

lemma concat_paginate: "concat (paginate rows) = rows"
proof (induction rows rule: paginate.induct)
  case (1 rows)
  then show ?case by (cases "rows = []") simp_all
qed

declare paginate.simps [simp del]

lemma execute_values_committed:
  "committed (snd (execute_values srv pages c)) = committed c"
  by (induction pages arbitrary: c) simp_all

lemma execute_values_pending:
  "fst (execute_values srv pages c) = None \<Longrightarrow>
   pending (snd (execute_values srv pages c)) = fold upsert_row (concat pages) (pending c)"
  by (induction pages arbitrary: c) (simp_all split: if_splits)

lemma insert_fails:
  assumes "fst (insert_categories srv c cats) = Inl e"
  shows "committed (snd (insert_categories srv c cats)) = committed c"
    and "pending (snd (insert_categories srv c cats)) = committed c"
  using assms
  by (auto simp: insert_categories_def commit_def rollback_def execute_values_committed
      split: prod.splits option.splits if_splits
      dest: arg_cong [where f = "\<lambda>x. committed (snd x)"])


lemma insert_succeeds:
  assumes "fst (insert_categories srv c cats) = Inr n"
  shows "n = length cats"
    and "committed (snd (insert_categories srv c cats)) = fold upsert_row cats (pending c)"
    and "pending (snd (insert_categories srv c cats)) = fold upsert_row cats (pending c)"
proof -
  obtain r c1 where ex: "execute_values srv (paginate cats) c = (r, c1)"
    by (cases "execute_values srv (paginate cats) c")
  with assms have r: "r = None" and nf: "\<not> commit_fails srv (pending c1)"
    by (auto simp: insert_categories_def commit_def split: option.splits if_splits)
  from execute_values_pending [of srv "paginate cats" c] ex r
  have p: "pending c1 = fold upsert_row cats (pending c)"
    by (simp add: concat_paginate)
  have res: "insert_categories srv c cats = (Inr (length cats), c1\<lparr>committed := pending c1\<rparr>)"
    using ex r nf by (simp add: insert_categories_def commit_def)
  show "n = length cats" using assms res by simp
  show "committed (snd (insert_categories srv c cats)) = fold upsert_row cats (pending c)"
    using res p by simp
  show "pending (snd (insert_categories srv c cats)) = fold upsert_row cats (pending c)"
    using res p by simp
qed

lemma insert_statement_fails:
  assumes "fst (execute_values srv (paginate cats) c) \<noteq> None"
  shows "fst (insert_categories srv c cats) = Inl DatabaseError"
proof -
  obtain r c1 where ex: "execute_values srv (paginate cats) c = (r, c1)"
    by (cases "execute_values srv (paginate cats) c")
  with assms obtain e where "r = Some e" by auto
  then show ?thesis using ex by (cases e) (simp add: insert_categories_def)
qed

lemma insert_fails_same:
  assumes "fst (insert_categories srv c cats) = Inl e" and "pending c = committed c"
  shows "snd (insert_categories srv c cats) = c"
proof -
  have "committed (snd (insert_categories srv c cats)) = committed c"
    and "pending (snd (insert_categories srv c cats)) = pending c"
    using insert_fails [OF assms(1)] assms(2) by simp_all
  then show ?thesis by (cases c, cases "snd (insert_categories srv c cats)") simp
qed

lemma insert_twice:
  assumes "pending c = committed c"
  shows "committed (snd (insert_categories srv (snd (insert_categories srv c cats)) cats))
       = committed (snd (insert_categories srv c cats))"
proof (cases "fst (insert_categories srv c cats)")
  case (Inl e)
  then show ?thesis using insert_fails_same [OF Inl assms] by simp
next
  case (Inr n)
  let ?c1 = "snd (insert_categories srv c cats)"
  have c1: "committed ?c1 = fold upsert_row cats (pending c)"
    "pending ?c1 = fold upsert_row cats (pending c)"
    using insert_succeeds [OF Inr] by simp_all
  show ?thesis
  proof (cases "fst (insert_categories srv ?c1 cats)")
    case (Inl e)
    then show ?thesis using insert_fails(1) [OF Inl] by simp
  next
    case (Inr m)
    then show ?thesis using insert_succeeds(2) [OF Inr] c1 by (simp add: fold_upsert_twice)
  qed
qed

text \<open>
  C8. When a statement of the batch fails, \<^verbatim>\<open>insert_categories\<close> raises; and whenever it
  raises (a statement or the commit failed) the stored table is what it was before the call and
  the transaction is rolled back, so no record of the batch is kept, also not those of the
  pages that had succeeded. When it returns, all the records are stored.
\<close>

theorem batch_all_or_nothing:
  "(fst (execute_values srv (paginate cats) c) \<noteq> None \<longrightarrow>
      fst (insert_categories srv c cats) = Inl DatabaseError)
   \<and> (fst (insert_categories srv c cats) = Inl e \<longrightarrow>
        committed (snd (insert_categories srv c cats)) = committed c
        \<and> pending (snd (insert_categories srv c cats)) = committed c)
   \<and> (fst (insert_categories srv c cats) = Inr n \<longrightarrow>
        n = length cats
        \<and> committed (snd (insert_categories srv c cats)) = fold upsert_row cats (pending c))"
  using insert_statement_fails [of srv cats c] insert_fails [of srv c cats e]
    insert_succeeds [of srv c cats n]
  by blast

theorem batch_all_or_nothing_witness:
  "fst (execute_values strict_server (paginate batch_with_empty_slug) empty_connection) \<noteq> None
   \<and> map rec_slug batch_with_empty_slug = [''a'', []]
   \<and> fst (insert_categories strict_server empty_connection batch_with_empty_slug)
       = Inl DatabaseError
   \<and> committed (snd (insert_categories strict_server empty_connection batch_with_empty_slug))
       = committed empty_connection
   \<and> fst (insert_categories strict_server empty_connection (take 1 batch_with_empty_slug))
       = Inr 1
   \<and> committed (snd (insert_categories strict_server empty_connection
         (take 1 batch_with_empty_slug)))
       = fold upsert_row (take 1 batch_with_empty_slug) (pending empty_connection)"
proof -
  have f: "fst (execute_values strict_server (paginate batch_with_empty_slug) empty_connection)
      \<noteq> None"
    by code_simp
  have s: "map rec_slug batch_with_empty_slug = [''a'', []]"
    by code_simp
  have g: "fst (insert_categories strict_server empty_connection (take 1 batch_with_empty_slug))
       = Inr 1"
    by code_simp
  from batch_all_or_nothing [of strict_server batch_with_empty_slug empty_connection
      DatabaseError]
    batch_all_or_nothing [of strict_server "take 1 batch_with_empty_slug" empty_connection _ 1]
    f s g
  show ?thesis by simp
qed

text \<open>
  C9. The upsert of a record overwrites every column of the row with its identifier, so
  upserting a list of records twice leaves the table that upserting it once leaves; on a
  connection without uncommitted changes, running \<^verbatim>\<open>insert_categories\<close> twice with the same
  records stores the same table as running it once.
\<close>

theorem upsert_idempotent:
  "upsert_row r T = T(rec_id r \<mapsto> columns_of r)
   \<and> fold upsert_row cats (fold upsert_row cats T) = fold upsert_row cats T
   \<and> (pending c = committed c \<longrightarrow>
        committed (snd (insert_categories srv (snd (insert_categories srv c cats)) cats))
          = committed (snd (insert_categories srv c cats)))"
  using upsert_row_overwrites [of r T] fold_upsert_twice [of cats T] insert_twice [of c srv cats]
  by blast

theorem upsert_idempotent_witness:
  "pending empty_connection = committed empty_connection
   \<and> fst (insert_categories strict_server empty_connection (take 1 batch_with_empty_slug)) = Inr 1
   \<and> committed (snd (insert_categories strict_server
         (snd (insert_categories strict_server empty_connection (take 1 batch_with_empty_slug)))
         (take 1 batch_with_empty_slug)))
       = committed (snd (insert_categories strict_server empty_connection
           (take 1 batch_with_empty_slug)))"
proof -
  have p: "pending empty_connection = committed empty_connection"
    by (simp add: empty_connection_def)
  have g: "fst (insert_categories strict_server empty_connection (take 1 batch_with_empty_slug))
       = Inr 1"
    by code_simp
  from upsert_idempotent [where c = empty_connection and srv = strict_server
      and cats = "take 1 batch_with_empty_slug"]
    p g
  show ?thesis by simp
qed

subsection \<open>Two runs on the same tree\<close>

lemma key_at_inj:
  "fresh_ids e \<Longrightarrow> (key_at e pos b = key_at e pos' b') = (pos = pos' \<and> b = b')"
  by (auto simp: fresh_ids_def key_at_def inj_def split: option.splits)

lemma parent_key_at:
  "fresh_ids e \<Longrightarrow> parent_key (map_option (uuid4 e) pos) b = key_at e pos b"
  by (cases pos) (simp_all add: parent_key_def key_at_def fresh_ids_def)

lemma rec_slug_emit:
  "rec_slug (fst (emit e n p st)) =
     fst (track_slug (slug_tracker st) (parent_key p (generate_slug (get_name n))))"
  by (simp add: emit_def Let_def split: prod.split)

lemma slug_tracker_emit:
  "slug_tracker (snd (emit e n p st)) =
     snd (track_slug (slug_tracker st) (parent_key p (generate_slug (get_name n))))"
  by (simp add: emit_def Let_def split: prod.split)

lemma emit_same:
  assumes f1: "fresh_ids e1" and f2: "fresh_ids e2" and s: "same_trackers e1 e2 s1 s2"
  shows "rec_slug (fst (emit e1 n (map_option (uuid4 e1) pos) s1))
           = rec_slug (fst (emit e2 n (map_option (uuid4 e2) pos) s2))"
    and "same_trackers e1 e2 (snd (emit e1 n (map_option (uuid4 e1) pos) s1))
           (snd (emit e2 n (map_option (uuid4 e2) pos) s2))"
proof -
  let ?b = "generate_slug (get_name n)"
  from s have c: "calls s1 = calls s2"
    and t: "\<And>pos b. slug_tracker s1 (key_at e1 pos b) = slug_tracker s2 (key_at e2 pos b)"
    by (simp_all add: same_trackers_def)
  have b: "snd (key_at e1 pos ?b) = snd (key_at e2 pos ?b)"
    by (cases pos) (simp_all add: key_at_def)
  show "rec_slug (fst (emit e1 n (map_option (uuid4 e1) pos) s1))
           = rec_slug (fst (emit e2 n (map_option (uuid4 e2) pos) s2))"
    using t [of pos ?b] b
    by (simp add: rec_slug_emit parent_key_at f1 f2 track_slug_def split: option.split)
  show "same_trackers e1 e2 (snd (emit e1 n (map_option (uuid4 e1) pos) s1))
           (snd (emit e2 n (map_option (uuid4 e2) pos) s2))"
    unfolding same_trackers_def
  proof (intro conjI allI)
    show "calls (snd (emit e1 n (map_option (uuid4 e1) pos) s1))
        = calls (snd (emit e2 n (map_option (uuid4 e2) pos) s2))"
      by (simp add: calls_emit c)
    fix pos' b'
    show "slug_tracker (snd (emit e1 n (map_option (uuid4 e1) pos) s1)) (key_at e1 pos' b')
        = slug_tracker (snd (emit e2 n (map_option (uuid4 e2) pos) s2)) (key_at e2 pos' b')"
      using t [of pos ?b] t [of pos' b']
      by (auto simp: slug_tracker_emit parent_key_at f1 f2 track_slug_def key_at_inj
          split: option.split)
  qed
qed

lemma slugs_same:
  assumes f1: "fresh_ids e1" and f2: "fresh_ids e2"
  shows "\<forall>pos s2. same_trackers e1 e2 st s2 \<and> p = map_option (uuid4 e1) pos \<longrightarrow>
           map rec_slug (fst (parse_categories e1 d p st))
             = map rec_slug (fst (parse_categories e2 d (map_option (uuid4 e2) pos) s2))
           \<and> same_trackers e1 e2 (snd (parse_categories e1 d p st))
               (snd (parse_categories e2 d (map_option (uuid4 e2) pos) s2))"
    and "\<forall>pos s2. same_trackers e1 e2 st s2 \<and> p = map_option (uuid4 e1) pos \<longrightarrow>
           map rec_slug (fst (extend_children e1 ds p st))
             = map rec_slug (fst (extend_children e2 ds (map_option (uuid4 e2) pos) s2))
           \<and> same_trackers e1 e2 (snd (extend_children e1 ds p st))
               (snd (extend_children e2 ds (map_option (uuid4 e2) pos) s2))"
proof (induction d p st and ds p st rule: traversal_induct)
  case (1 i n ch p st)
  show ?case
  proof (cases "i = Some ''root''")
    case True
    show ?thesis
    proof (intro allI impI)
      fix pos s2
      assume a: "same_trackers e1 e2 st s2 \<and> p = map_option (uuid4 e1) pos"
      have "None = map_option (uuid4 e1) None" by simp
      with 1 a
      have "map rec_slug (fst (extend_children e1 (kids ch) None st))
             = map rec_slug (fst (extend_children e2 (kids ch) (map_option (uuid4 e2) None) s2))
           \<and> same_trackers e1 e2 (snd (extend_children e1 (kids ch) None st))
               (snd (extend_children e2 (kids ch) (map_option (uuid4 e2) None) s2))"
        by blast
      then show "map rec_slug (fst (parse_categories e1 (CategoryNode i n ch) p st))
             = map rec_slug (fst (parse_categories e2 (CategoryNode i n ch)
                 (map_option (uuid4 e2) pos) s2))
           \<and> same_trackers e1 e2 (snd (parse_categories e1 (CategoryNode i n ch) p st))
               (snd (parse_categories e2 (CategoryNode i n ch) (map_option (uuid4 e2) pos) s2))"
        using True by (simp add: parse_root)
    qed
  next
    case False
    show ?thesis
    proof (intro allI impI)
      fix pos s2
      assume a: "same_trackers e1 e2 st s2 \<and> p = map_option (uuid4 e1) pos"
      then have s: "same_trackers e1 e2 st s2" and p: "p = map_option (uuid4 e1) pos"
        by simp_all
      let ?p2 = "map_option (uuid4 e2) pos"
      let ?r1 = "fst (emit e1 n p st)" and ?t1 = "snd (emit e1 n p st)"
      let ?r2 = "fst (emit e2 n ?p2 s2)" and ?t2 = "snd (emit e2 n ?p2 s2)"
      have sl: "rec_slug ?r1 = rec_slug ?r2" and st: "same_trackers e1 e2 ?t1 ?t2"
        using emit_same [OF f1 f2 s, of n pos] p by simp_all
      have c: "calls st = calls s2" using s by (simp add: same_trackers_def)
      have q1: "Some (rec_id ?r1) = map_option (uuid4 e1) (Some (calls st))"
        by (simp add: rec_id_emit)
      have q2: "Some (rec_id ?r2) = map_option (uuid4 e2) (Some (calls st))"
        by (simp add: rec_id_emit c)
      from 1 st q1
      have "map rec_slug (fst (extend_children e1 (kids ch) (Some (rec_id ?r1)) ?t1))
             = map rec_slug (fst (extend_children e2 (kids ch)
                 (map_option (uuid4 e2) (Some (calls st))) ?t2))
           \<and> same_trackers e1 e2 (snd (extend_children e1 (kids ch) (Some (rec_id ?r1)) ?t1))
               (snd (extend_children e2 (kids ch) (map_option (uuid4 e2) (Some (calls st))) ?t2))"
        by blast
      then show "map rec_slug (fst (parse_categories e1 (CategoryNode i n ch) p st))
             = map rec_slug (fst (parse_categories e2 (CategoryNode i n ch) ?p2 s2))
           \<and> same_trackers e1 e2 (snd (parse_categories e1 (CategoryNode i n ch) p st))
               (snd (parse_categories e2 (CategoryNode i n ch) ?p2 s2))"
        using False sl q2 by (simp add: parse_node)
    qed
  qed
next
  case (2 p st)
  show ?case by simp
next
  case (3 c cs p st)
  show ?case
  proof (intro allI impI)
    fix pos s2
    assume a: "same_trackers e1 e2 st s2 \<and> p = map_option (uuid4 e1) pos"
    let ?p2 = "map_option (uuid4 e2) pos"
    from 3(1) a
    have h: "map rec_slug (fst (parse_categories e1 c p st))
             = map rec_slug (fst (parse_categories e2 c ?p2 s2))"
      and t: "same_trackers e1 e2 (snd (parse_categories e1 c p st))
               (snd (parse_categories e2 c ?p2 s2))"
      by blast+
    from 3(2) t a
    have "map rec_slug (fst (extend_children e1 cs p (snd (parse_categories e1 c p st))))
             = map rec_slug (fst (extend_children e2 cs ?p2 (snd (parse_categories e2 c ?p2 s2))))
           \<and> same_trackers e1 e2 (snd (extend_children e1 cs p (snd (parse_categories e1 c p st))))
               (snd (extend_children e2 cs ?p2 (snd (parse_categories e2 c ?p2 s2))))"
      by blast
    then show "map rec_slug (fst (extend_children e1 (c # cs) p st))
             = map rec_slug (fst (extend_children e2 (c # cs) ?p2 s2))
           \<and> same_trackers e1 e2 (snd (extend_children e1 (c # cs) p st))
               (snd (extend_children e2 (c # cs) ?p2 s2))"
      using h by (simp add: extend_cons)
  qed
qed

lemma same_trackers_initial: "same_trackers e1 e2 initial initial"
  by (simp add: same_trackers_def initial_def)

lemma rec_is_active_emit: "rec_is_active (fst (emit e n p st))"
  by (simp add: emit_def Let_def split: prod.split)

lemma active_parse_extend:
  shows "map rec_is_active (fst (parse_categories e d p st)) = replicate (count_non_root d) True"
    and "map rec_is_active (fst (extend_children e ds p st))
           = replicate (sum_list (map count_non_root ds)) True"
proof (induction d p st and ds p st rule: traversal_induct)
  case (1 i n ch p st)
  then show ?case
    by (cases "i = Some ''root''")
       (simp_all add: parse_root parse_node count_kids rec_is_active_emit)
next
  case (2 p st)
  show ?case by simp
next
  case (3 c cs p st)
  then show ?case by (simp add: extend_cons replicate_add)
qed

lemma slugs_same_tree:
  assumes "fresh_ids e1" and "fresh_ids e2"
  shows "map rec_slug (parse_tree e1 T) = map rec_slug (parse_tree e2 T)"
  using slugs_same(1) [OF assms, of initial None T] same_trackers_initial [of e1 e2]
  by (simp add: parse_tree_def)

lemma fresh_first_run: "fresh_ids first_run"
proof -
  have "inj (\<lambda>k. replicate (Suc k) CHR ''a'')"
    by (rule injI) (metis length_replicate nat.inject)
  then show ?thesis by (simp add: fresh_ids_def first_run_def)
qed

lemma fresh_second_run: "fresh_ids second_run"
proof -
  have "inj (\<lambda>k. replicate (Suc k) CHR ''b'')"
    by (rule injI) (metis length_replicate nat.inject)
  then show ?thesis by (simp add: fresh_ids_def second_run_def)
qed

text \<open>
  C7. As stated the claim fails: the identifiers and the times of the records come from
  \<^verbatim>\<open>uuid.uuid4()\<close> and \<^verbatim>\<open>datetime.now\<close>, and two runs on the same tree that draw
  different identifiers return different sequences.
\<close>

theorem runs_differ: "parse_tree first_run (leaf ''a'') \<noteq> parse_tree second_run (leaf ''a'')"
proof
  assume "parse_tree first_run (leaf ''a'') = parse_tree second_run (leaf ''a'')"
  then have "map rec_id (parse_tree first_run (leaf ''a''))
      = map rec_id (parse_tree second_run (leaf ''a''))"
    by simp
  moreover have "map rec_id (parse_tree first_run (leaf ''a'')) = [''a'']" by code_simp
  moreover have "map rec_id (parse_tree second_run (leaf ''a'')) = [''b'']" by code_simp
  ultimately show False by simp
qed

lemma parse_within_root:
  "parse_within (Suc m) h e (CategoryNode (Some ''root'') n ch) p st =
     extend_within m h e (kids ch) None st"
  by (simp add: kids_def split: option.split)

lemma parse_within_node:
  "i \<noteq> Some ''root'' \<Longrightarrow>
   parse_within (Suc m) h e (CategoryNode i n ch) p st =
     (if m < h then Inl RecursionError
      else case extend_within m h e (kids ch) (Some (rec_id (fst (emit e n p st))))
                  (snd (emit e n p st)) of
             Inl err \<Rightarrow> Inl err
           | Inr (rs, st2) \<Rightarrow> Inr (fst (emit e n p st) # rs, st2))"
  by (cases "track_slug (slug_tracker st) (parent_key p (generate_slug (get_name n)))")
     (simp add: kids_def emit_def Let_def split: option.split sum.split prod.split)

lemma frames_kids:
  "frames_needed h (CategoryNode i n ch) =
     Suc (max (if i = Some ''root'' then 0 else h)
            (foldr max (map (frames_needed h) (kids ch)) 0))"
  by (simp add: kids_def split: option.split)

declare parse_within.simps(2) [simp del]
declare frames_needed.simps [simp del]

lemma within_exact:
  shows "\<forall>m. parse_within m h e d p st =
           (if frames_needed h d \<le> m then Inr (parse_categories e d p st)
            else Inl RecursionError)"
    and "\<forall>m. extend_within m h e ds p st =
           (if foldr max (map (frames_needed h) ds) 0 \<le> m then Inr (extend_children e ds p st)
            else Inl RecursionError)"
proof (induction d p st and ds p st rule: traversal_induct)
  case (1 i n ch p st)
  show ?case
  proof
    fix m
    show "parse_within m h e (CategoryNode i n ch) p st =
           (if frames_needed h (CategoryNode i n ch) \<le> m
            then Inr (parse_categories e (CategoryNode i n ch) p st)
            else Inl RecursionError)"
    proof (cases m)
      case 0
      then show ?thesis by (simp add: frames_kids)
    next
      case (Suc k)
      show ?thesis
      proof (cases "i = Some ''root''")
        case True
        then show ?thesis using 1 Suc
          by (simp add: parse_within_root parse_root frames_kids)
      next
        case False
        then show ?thesis using 1 Suc
          by (simp add: parse_within_node parse_node frames_kids case_prod_beta)
      qed
    qed
  qed
next
  case (2 p st)
  show ?case by simp
next
  case (3 c cs p st)
  then show ?case by (simp add: extend_cons split: prod.split)
qed

lemma calls_parse_extend:
  shows "calls (snd (parse_categories e d p st)) = calls st + count_non_root d"
    and "calls (snd (extend_children e ds p st)) = calls st + sum_list (map count_non_root ds)"
proof (induction d p st and ds p st rule: traversal_induct)
  case (1 i n ch p st)
  then show ?case
    by (cases "i = Some ''root''") (simp_all add: parse_root parse_node count_kids calls_emit)
next
  case (2 p st)
  show ?case by simp
next
  case (3 c cs p st)
  then show ?case by (simp add: extend_cons)
qed

lemma rec_updated_emit: "rec_updated_at (fst (emit e n p st)) = now e (calls st)"
  by (simp add: emit_def Let_def split: prod.split)

lemma upt_first: "[a..<a + Suc m] = a # [Suc a..<Suc a + m]"
  by (simp add: upt_conv_Cons del: upt_Suc)

lemma upt_split: "[a..<a + (m + n)] = [a..<a + m] @ [a + m..<a + m + n]"
  using upt_add_eq_append [of a "a + m" n] by (simp only: add.assoc le_add1)

lemma draws_parse_extend:
  shows "map (\<lambda>r. (rec_id r, rec_updated_at r)) (fst (parse_categories e d p st))
       = map (\<lambda>k. (uuid4 e k, now e k)) [calls st..<calls st + count_non_root d]"
    and "map (\<lambda>r. (rec_id r, rec_updated_at r)) (fst (extend_children e ds p st))
       = map (\<lambda>k. (uuid4 e k, now e k))
           [calls st..<calls st + sum_list (map count_non_root ds)]"
proof (induction d p st and ds p st rule: traversal_induct)
  case (1 i n ch p st)
  let ?F = "sum_list (map count_non_root (kids ch))"
  show ?case
  proof (cases "i = Some ''root''")
    case True
    have "count_non_root (CategoryNode i n ch) = ?F"
      using True by (simp add: count_kids)
    then show ?thesis using True by (simp only: parse_root 1)
  next
    case False
    let ?r = "fst (emit e n p st)" and ?s = "snd (emit e n p st)"
    have c: "count_non_root (CategoryNode i n ch) = Suc ?F"
      using False by (simp add: count_kids)
    have k: "map (\<lambda>r. (rec_id r, rec_updated_at r))
          (fst (extend_children e (kids ch) (Some (uuid4 e (calls st))) ?s))
        = map (\<lambda>k. (uuid4 e k, now e k)) [Suc (calls st)..<Suc (calls st) + ?F]"
      by (simp only: 1 calls_emit)
    have "fst (parse_categories e (CategoryNode i n ch) p st)
        = ?r # fst (extend_children e (kids ch) (Some (uuid4 e (calls st))) ?s)"
      using False by (simp add: parse_node rec_id_emit)
    then show ?thesis
      by (simp only: c upt_first list.map k rec_id_emit rec_updated_emit)
  qed
next
  case (2 p st)
  show ?case by simp
next
  case (3 c cs p st)
  let ?s = "snd (parse_categories e c p st)"
  have a: "map (\<lambda>r. (rec_id r, rec_updated_at r)) (fst (parse_categories e c p st))
      = map (\<lambda>k. (uuid4 e k, now e k)) [calls st..<calls st + count_non_root c]"
    by (rule 3(1))
  have b: "map (\<lambda>r. (rec_id r, rec_updated_at r)) (fst (extend_children e cs p ?s))
      = map (\<lambda>k. (uuid4 e k, now e k))
          [calls st + count_non_root c..<calls st + count_non_root c
             + sum_list (map count_non_root cs)]"
    by (simp only: 3(2) calls_parse_extend)
  have "fst (extend_children e (c # cs) p st)
      = fst (parse_categories e c p st) @ fst (extend_children e cs p ?s)"
    by (simp add: extend_cons)
  then show ?case
    by (simp only: list.map sum_list.Cons upt_split map_append a b)
qed

lemma positions_kids:
  "parent_positions_from k pos (CategoryNode i n ch) =
     (if i = Some ''root'' then parent_positions_list k None (kids ch)
      else pos # parent_positions_list (Suc k) (Some k) (kids ch))"
  by (simp add: kids_def split: option.split)

declare parent_positions_from.simps [simp del]

lemma parents_parse_extend:
  shows "\<forall>pos. p = map_option (uuid4 e) pos \<longrightarrow>
           map rec_parent_id (fst (parse_categories e d p st))
             = map (map_option (uuid4 e)) (parent_positions_from (calls st) pos d)"
    and "\<forall>pos. p = map_option (uuid4 e) pos \<longrightarrow>
           map rec_parent_id (fst (extend_children e ds p st))
             = map (map_option (uuid4 e)) (parent_positions_list (calls st) pos ds)"
proof (induction d p st and ds p st rule: traversal_induct)
  case (1 i n ch p st)
  show ?case
  proof (cases "i = Some ''root''")
    case True
    have "None = map_option (uuid4 e) None" by simp
    with 1 have "map rec_parent_id (fst (extend_children e (kids ch) None st))
             = map (map_option (uuid4 e)) (parent_positions_list (calls st) None (kids ch))"
      by blast
    then show ?thesis using True by (simp add: parse_root positions_kids)
  next
    case False
    let ?r = "fst (emit e n p st)" and ?s = "snd (emit e n p st)"
    have "Some (rec_id ?r) = map_option (uuid4 e) (Some (calls st))"
      by (simp add: rec_id_emit)
    with 1 have k: "map rec_parent_id (fst (extend_children e (kids ch) (Some (rec_id ?r)) ?s))
             = map (map_option (uuid4 e))
                 (parent_positions_list (calls ?s) (Some (calls st)) (kids ch))"
      by blast
    show ?thesis
    proof (intro allI impI)
      fix pos assume "p = map_option (uuid4 e) pos"
      then have "rec_parent_id ?r = map_option (uuid4 e) pos"
        by (simp add: rec_parent_emit)
      then show "map rec_parent_id (fst (parse_categories e (CategoryNode i n ch) p st))
          = map (map_option (uuid4 e)) (parent_positions_from (calls st) pos (CategoryNode i n ch))"
        using False k by (simp add: parse_node positions_kids calls_emit)
    qed
  qed
next
  case (2 p st)
  show ?case by simp
next
  case (3 c cs p st)
  then show ?case by (simp add: extend_cons calls_parse_extend)
qed

text \<open>
  C7, amended. \<^verbatim>\<open>parse_categories\<close> raises nothing but the interpreter's
  \<^verbatim>\<open>RecursionError\<close>: it returns exactly when the nesting of the tree is within the depth
  of calls still allowed, and raises otherwise. What it returns depends on the run only
  through the values drawn: the k-th record has the k-th identifier and the k-th time of the
  run, and as parent identifier the identifier of the record at a position that the tree alone
  determines (or none); the names and the activity flags are determined by the tree alone, and
  two runs give the same slugs when the identifiers drawn in each are pairwise distinct, not
  empty and not \<^verbatim>\<open>root\<close>.
\<close>

theorem runs_agree:
  "parse_within m h e T p st =
     (if frames_needed h T \<le> m then Inr (parse_categories e T p st) else Inl RecursionError)
   \<and> map rec_id (parse_tree e T) = map (uuid4 e) [0..<count_non_root T]
   \<and> map rec_updated_at (parse_tree e T) = map (now e) [0..<count_non_root T]
   \<and> map rec_parent_id (parse_tree e T) = map (map_option (uuid4 e)) (parent_positions T)
   \<and> map rec_name (parse_tree e T) = map name_of (preorder T)
   \<and> map rec_is_active (parse_tree e T) = replicate (count_non_root T) True
   \<and> (fresh_ids e \<and> fresh_ids e' \<longrightarrow>
        map rec_slug (parse_tree e T) = map rec_slug (parse_tree e' T))"
proof (intro conjI impI)
  show "parse_within m h e T p st =
     (if frames_needed h T \<le> m then Inr (parse_categories e T p st) else Inl RecursionError)"
    using within_exact(1) by blast
  have d: "map (\<lambda>r. (rec_id r, rec_updated_at r)) (parse_tree e T)
      = map (\<lambda>k. (uuid4 e k, now e k)) [0..<count_non_root T]"
    using draws_parse_extend(1) [of e T None initial] by (simp add: parse_tree_def initial_def)
  have "map fst (map (\<lambda>r. (rec_id r, rec_updated_at r)) (parse_tree e T))
      = map fst (map (\<lambda>k. (uuid4 e k, now e k)) [0..<count_non_root T])"
    by (simp only: d)
  then show "map rec_id (parse_tree e T) = map (uuid4 e) [0..<count_non_root T]"
    by (simp add: comp_def)
  have "map snd (map (\<lambda>r. (rec_id r, rec_updated_at r)) (parse_tree e T))
      = map snd (map (\<lambda>k. (uuid4 e k, now e k)) [0..<count_non_root T])"
    by (simp only: d)
  then show "map rec_updated_at (parse_tree e T) = map (now e) [0..<count_non_root T]"
    by (simp add: comp_def)
  have "None = map_option (uuid4 e) None" by simp
  with parents_parse_extend(1) [of None e T initial]
  show "map rec_parent_id (parse_tree e T) = map (map_option (uuid4 e)) (parent_positions T)"
    by (simp add: parse_tree_def parent_positions_def initial_def)
  show "map rec_name (parse_tree e T) = map name_of (preorder T)"
    by (simp add: parse_tree_def names_parse_extend)
  show "map rec_is_active (parse_tree e T) = replicate (count_non_root T) True"
    by (simp add: parse_tree_def active_parse_extend)
next
  assume "fresh_ids e \<and> fresh_ids e'"
  then show "map rec_slug (parse_tree e T) = map rec_slug (parse_tree e' T)"
    using slugs_same_tree by blast
qed

theorem runs_agree_witness:
  "fresh_ids first_run \<and> fresh_ids second_run
   \<and> map rec_slug (parse_tree first_run example_tree)
       = map rec_slug (parse_tree second_run example_tree)
   \<and> map rec_slug (parse_tree first_run example_tree) = [''a'', ''b'', ''y'', ''x'', ''c'']
   \<and> frames_needed 1 example_tree = 5
   \<and> parse_within 4 1 first_run example_tree None initial = Inl RecursionError
   \<and> parse_within 5 1 first_run example_tree None initial
       = Inr (parse_categories first_run example_tree None initial)
   \<and> parent_positions example_tree = [None, None, Some 1, None, None]
   \<and> map rec_parent_id (parse_tree first_run example_tree)
       = [None, None, Some ''aa'', None, None]
   \<and> map rec_parent_id (parse_tree second_run example_tree)
       = [None, None, Some ''bb'', None, None]"
proof -
  have s: "map rec_slug (parse_tree first_run example_tree) = [''a'', ''b'', ''y'', ''x'', ''c'']"
    by code_simp
  have f: "frames_needed 1 example_tree = 5"
    by code_simp
  have pp: "parent_positions example_tree = [None, None, Some 1, None, None]"
    by code_simp
  have u: "map (map_option (uuid4 first_run)) [None, None, Some 1, None, None]
      = [None, None, Some ''aa'', None, None]"
    "map (map_option (uuid4 second_run)) [None, None, Some 1, None, None]
      = [None, None, Some ''bb'', None, None]"
    by code_simp+
  note t1 = runs_agree [of 4 1 first_run example_tree None initial second_run]
  note t2 = runs_agree [of 5 1 first_run example_tree None initial second_run]
  note t3 = runs_agree [of 5 1 second_run example_tree None initial first_run]
  have w4: "parse_within 4 1 first_run example_tree None initial = Inl RecursionError"
    using t1 [THEN conjunct1] by (simp only: f) simp
  have w5: "parse_within 5 1 first_run example_tree None initial
       = Inr (parse_categories first_run example_tree None initial)"
    using t2 [THEN conjunct1] by (simp only: f) simp
  have sl: "map rec_slug (parse_tree first_run example_tree)
       = map rec_slug (parse_tree second_run example_tree)"
    using t1 fresh_first_run fresh_second_run by blast
  have p1: "map rec_parent_id (parse_tree first_run example_tree)
       = [None, None, Some ''aa'', None, None]"
    using t1 [THEN conjunct2, THEN conjunct2, THEN conjunct2, THEN conjunct1]
    by (simp only: pp u)
  have p2: "map rec_parent_id (parse_tree second_run example_tree)
       = [None, None, Some ''bb'', None, None]"
    using t3 [THEN conjunct2, THEN conjunct2, THEN conjunct2, THEN conjunct1]
    by (simp only: pp u)
  show ?thesis
    by (intro conjI) (fact fresh_first_run fresh_second_run sl s f w4 w5 pp p1 p2)+
qed

subsection \<open>The scope of a counter\<close>

lemma parents_drawn:
  shows "drawn e p \<longrightarrow> (\<forall>r \<in> set (fst (parse_categories e d p st)). drawn e (rec_parent_id r))"
    and "drawn e p \<longrightarrow> (\<forall>r \<in> set (fst (extend_children e ds p st)). drawn e (rec_parent_id r))"
proof (induction d p st and ds p st rule: traversal_induct)
  case (1 i n ch p st)
  have none: "drawn e None" by (simp add: drawn_def)
  have own: "drawn e (Some (rec_id (fst (emit e n p st))))"
    by (auto simp: drawn_def rec_id_emit)
  show ?case
  proof (cases "i = Some ''root''")
    case True
    then show ?thesis using 1 none by (simp add: parse_root)
  next
    case False
    then show ?thesis using 1 own by (simp add: parse_node rec_parent_emit)
  qed
next
  case (2 p st)
  show ?case by simp
next
  case (3 c cs p st)
  then show ?case by (auto simp: extend_cons)
qed

lemma parent_key_eq:
  assumes "proper_ids e" and "drawn e a" and "drawn e a'"
  shows "(parent_key a b = parent_key a' b') = (a = a' \<and> b = b')"
  using assms by (auto simp: proper_ids_def drawn_def parent_key_def)

lemma occurrence_counts:
  assumes e: "proper_ids e" and k: "k < length (parse_tree e T)"
  shows "occurrence (parse_tree e T) k
       = counts (take (Suc k) (parse_tree e T)) (record_key (parse_tree e T ! k))"
proof -
  let ?out = "parse_tree e T"
  have d: "\<forall>r \<in> set ?out. drawn e (rec_parent_id r)"
    using parents_drawn(1) [of e None T initial] by (simp add: parse_tree_def drawn_def)
  have dk: "drawn e (rec_parent_id (?out ! k))" using d k by simp
  have "filter (\<lambda>r. slug_pair r = slug_pair (?out ! k)) (take (Suc k) ?out)
      = filter (\<lambda>r. record_key r = record_key (?out ! k)) (take (Suc k) ?out)"
  proof (rule filter_cong [OF refl])
    fix r assume "r \<in> set (take (Suc k) ?out)"
    then have "r \<in> set ?out" by (rule in_set_takeD)
    then have "drawn e (rec_parent_id r)" using d by simp
    from parent_key_eq [OF e this dk]
    show "(slug_pair r = slug_pair (?out ! k)) = (record_key r = record_key (?out ! k))"
      by (simp add: slug_pair_def record_key_def)
  qed
  then show ?thesis by (simp add: occurrence_def counts_def)
qed

lemma proper_example_run: "proper_ids example_run"
  by (simp add: proper_ids_def example_run_def)

text \<open>
  C6. In one traversal, the record that is the n-th in output order with its pair of parent
  (the parent identifier, or none at the top level) and base slug gets the base slug itself
  when n is 1, and the base slug followed by a hyphen and n otherwise; the identifiers of the
  run are taken to be non-empty and different from \<^verbatim>\<open>root\<close>, as those of
  \<^verbatim>\<open>uuid.uuid4()\<close> are. Three siblings named \<^verbatim>\<open>Men's Shoes\<close> get \<^verbatim>\<open>mens-shoes\<close>,
  \<^verbatim>\<open>mens-shoes-2\<close> and \<^verbatim>\<open>mens-shoes-3\<close>.
\<close>

theorem occurrence_suffix:
  "(proper_ids e \<and> k < length (parse_tree e T) \<longrightarrow>
     rec_slug (parse_tree e T ! k) =
       expected_slug (generate_slug (rec_name (parse_tree e T ! k)))
         (occurrence (parse_tree e T) k))
   \<and> map rec_slug (parse_tree example_run three_shoes) =
       [''mens-shoes'', ''mens-shoes-2'', ''mens-shoes-3'']"
proof (intro conjI impI)
  assume a: "proper_ids e \<and> k < length (parse_tree e T)"
  then have k: "k < length (parse_tree e T)" and e: "proper_ids e" by simp_all
  have "slugs_from [] (parse_tree e T)"
    using slugs_parse_extend(1) [of initial e T None] tracks_initial
    by (simp add: parse_tree_def)
  from slugs_from_nth [OF this k]
  show "rec_slug (parse_tree e T ! k) =
       expected_slug (generate_slug (rec_name (parse_tree e T ! k)))
         (occurrence (parse_tree e T) k)"
    by (simp add: occurrence_counts [OF e k] record_key_def snd_parent_key)
next
  show "map rec_slug (parse_tree example_run three_shoes) =
      [''mens-shoes'', ''mens-shoes-2'', ''mens-shoes-3'']"
    by code_simp
qed

theorem occurrence_suffix_witness:
  "proper_ids example_run
   \<and> map slug_pair (parse_tree example_run two_families)
       = [(None, ''p''), (Some ''u0'', ''k''), (Some ''u0'', ''k''), (None, ''q''),
          (Some ''u3'', ''k'')]
   \<and> 2 < length (parse_tree example_run two_families)
   \<and> occurrence (parse_tree example_run two_families) 2 = 2
   \<and> rec_slug (parse_tree example_run two_families ! 2) = ''k-2''
   \<and> 4 < length (parse_tree example_run two_families)
   \<and> occurrence (parse_tree example_run two_families) 4 = 1
   \<and> rec_slug (parse_tree example_run two_families ! 4) = ''k''"
proof -
  have p: "map slug_pair (parse_tree example_run two_families)
       = [(None, ''p''), (Some ''u0'', ''k''), (Some ''u0'', ''k''), (None, ''q''),
          (Some ''u3'', ''k'')]"
    by code_simp
  have k: "2 < length (parse_tree example_run two_families)"
    "4 < length (parse_tree example_run two_families)"
    by code_simp+
  have o: "occurrence (parse_tree example_run two_families) 2 = 2"
    "occurrence (parse_tree example_run two_families) 4 = 1"
    by code_simp+
  have g: "expected_slug (generate_slug (rec_name (parse_tree example_run two_families ! 2))) 2
      = ''k-2''"
    "expected_slug (generate_slug (rec_name (parse_tree example_run two_families ! 4))) 1
      = ''k''"
    by code_simp+
  from occurrence_suffix [of example_run 2 two_families]
    occurrence_suffix [of example_run 4 two_families] proper_example_run p k o g
  show ?thesis by simp
qed

end
